theory Spec2Isabelle
  imports Complex_Main "HOL-Library.Word" "HOL-Library.Multiset"
begin

unbundle bit_operations_syntax

section \<open>Data model of \<open>reproblas/ddot.c\<close>\<close>

text \<open>
  A \<open>double\<close> is handled by the code only through its 64-bit pattern (the union
  \<open>dblbits_t\<close>), so a double is a \<open>64 word\<close> here. \<open>unsigned __int128\<close> is a
  \<open>128 word\<close>. The C \<open>int\<close>s of the code (exponents, bit indices, signs) stay far
  inside the 32-bit range, and are unbounded \<open>int\<close>s; \<open>size_t\<close> indices are \<open>nat\<close>.
\<close>

type_synonym u64 = "64 word"
type_synonym u128 = "128 word"

text \<open>The constants of the \<open>#define\<close> block.\<close>

abbreviation WORD_BITS :: nat where "WORD_BITS \<equiv> 64"
abbreviation ACC_EMIN :: int where "ACC_EMIN \<equiv> - 2148"
abbreviation ACC_LIMBS :: nat where "ACC_LIMBS \<equiv> 66"
abbreviation INT_MAX :: int where "INT_MAX \<equiv> 2147483647"
abbreviation INT_MIN :: int where "INT_MIN \<equiv> - 2147483648"

text \<open>
  \<open>bigu_t\<close>: a struct whose only field is the array \<open>limb[ACC_LIMBS]\<close>, little-endian.
  The array is a list of limbs; every accumulator the code builds has \<open>ACC_LIMBS\<close> of them.
\<close>

type_synonym bigu_t = "u64 list"

definition is_nan_u64 :: "u64 \<Rightarrow> bool" where
  "is_nan_u64 u =
     (let exp = drop_bit 52 u AND 0x7FF;
          frac = u AND (push_bit 52 1 - 1)
      in exp = 0x7FF \<and> frac \<noteq> 0)"

definition is_inf_u64 :: "u64 \<Rightarrow> bool" where
  "is_inf_u64 u =
     (let exp = drop_bit 52 u AND 0x7FF;
          frac = u AND (push_bit 52 1 - 1)
      in exp = 0x7FF \<and> frac = 0)"

definition is_zero_u64 :: "u64 \<Rightarrow> bool" where
  "is_zero_u64 u = (u AND NOT (push_bit 63 1) = 0)"

text \<open>The sign read off bit 63, as \<open>(u >> 63) ? -1 : +1\<close>.\<close>

definition sign_of_u64 :: "u64 \<Rightarrow> int" where
  "sign_of_u64 u = (if drop_bit 63 u \<noteq> 0 then - 1 else 1)"

text \<open>
  \<open>decode_double_SE\<close> returns \<open>false\<close> for NaN and infinity (\<open>None\<close> here) and otherwise
  writes sign, significand and exponent through its three pointers.
\<close>

definition decode_double_SE :: "u64 \<Rightarrow> (int \<times> u64 \<times> int) option" where
  "decode_double_SE u =
     (let sign = sign_of_u64 u;
          exp = drop_bit 52 u AND 0x7FF;
          frac = u AND (push_bit 52 1 - 1)
      in if exp = 0x7FF then None
         else if exp = 0 then
           (if frac = 0 then Some (sign, 0, 0)
            else Some (sign, frac, - 1074))
         else Some (sign, push_bit 52 1 OR frac, int (unat exp) - 1023 - 52))"

definition bigu_clear :: bigu_t where
  "bigu_clear = replicate ACC_LIMBS 0"

text \<open>
  \<open>add_word_at\<close> updates the limb, the carry and the overflow flag through pointers;
  the model returns the three.
\<close>

definition add_word_at :: "bigu_t \<Rightarrow> nat \<Rightarrow> u64 \<Rightarrow> u64 \<Rightarrow> bool \<Rightarrow> bigu_t \<times> u64 \<times> bool" where
  "add_word_at a idx w carry overflow =
     (if w = 0 \<and> carry = 0 then (a, carry, overflow)
      else if idx \<ge> ACC_LIMBS then (a, carry, True)
      else
        let sum = (ucast (a ! idx) :: u128) + ucast w + ucast carry
        in (a[idx := ucast sum], ucast (drop_bit 64 sum), overflow))"

text \<open>The \<open>while (carry != 0)\<close> loop that ends \<open>bigu_add_shifted_u128\<close>.\<close>

function carry_loop :: "bigu_t \<Rightarrow> nat \<Rightarrow> u64 \<Rightarrow> bool \<Rightarrow> bigu_t \<times> bool" where
  "carry_loop a i carry overflow =
     (if carry = 0 then (a, overflow)
      else if i \<ge> ACC_LIMBS then (a, True)
      else
        let sum = (ucast (a ! i) :: u128) + ucast carry
        in carry_loop (a[i := ucast sum]) (i + 1) (ucast (drop_bit 64 sum)) overflow)"
  by pat_completeness auto
termination
  by (relation "measure (\<lambda>(a, i, carry, overflow). ACC_LIMBS - i)") auto

declare carry_loop.simps [simp del]

definition bigu_add_shifted_u128 :: "bigu_t \<Rightarrow> u128 \<Rightarrow> nat \<Rightarrow> bool \<Rightarrow> bigu_t \<times> bool" where
  "bigu_add_shifted_u128 a val bit_shift overflow =
     (if val = 0 then (a, overflow)
      else
        let word_off = bit_shift div WORD_BITS;
            r = bit_shift mod WORD_BITS;
            lo = (ucast val :: u64);
            hi = (ucast (drop_bit 64 val) :: u64);
            (v0, v1, v2) =
              (if r = 0 then (lo, hi, 0)
               else
                 let carry0 = drop_bit (64 - r) lo;
                     carry1 = drop_bit (64 - r) hi
                 in (push_bit r lo, push_bit r hi OR carry0, carry1));
            (a1, c1, o1) = add_word_at a word_off v0 0 overflow;
            (a2, c2, o2) = add_word_at a1 (word_off + 1) v1 c1 o1;
            (a3, c3, o3) = add_word_at a2 (word_off + 2) v2 c2 o2
        in carry_loop a3 (word_off + 3) c3 o3)"

text \<open>\<open>bigu_cmp\<close>: the loop runs \<open>i\<close> from \<open>ACC_LIMBS - 1\<close> down to \<open>0\<close>.\<close>

fun bigu_cmp_loop :: "nat \<Rightarrow> bigu_t \<Rightarrow> bigu_t \<Rightarrow> int" where
  "bigu_cmp_loop 0 a b = 0"
| "bigu_cmp_loop (Suc i) a b =
     (if a ! i < b ! i then - 1
      else if a ! i > b ! i then 1
      else bigu_cmp_loop i a b)"

definition bigu_cmp :: "bigu_t \<Rightarrow> bigu_t \<Rightarrow> int" where
  "bigu_cmp a b = bigu_cmp_loop ACC_LIMBS a b"

text \<open>
  \<open>bigu_sub\<close>: in \<open>unsigned __int128 bi = b->limb[i] + borrow\<close> both operands are
  \<open>uint64_t\<close>, so the sum is formed in 64 bits (it wraps) and only then widened.
\<close>

function bigu_sub_loop :: "bigu_t \<Rightarrow> bigu_t \<Rightarrow> bigu_t \<Rightarrow> nat \<Rightarrow> u64 \<Rightarrow> bigu_t" where
  "bigu_sub_loop a b c i borrow =
     (if i < ACC_LIMBS then
        let ai = (ucast (a ! i) :: u128);
            bi = (ucast (b ! i + borrow) :: u128);
            diff = ai - bi
        in bigu_sub_loop a b (c[i := ucast diff]) (i + 1) (ucast (drop_bit 64 diff AND 1))
      else c)"
  by pat_completeness auto
termination
  by (relation "measure (\<lambda>(a, b, c, i, borrow). ACC_LIMBS - i)") auto

declare bigu_sub_loop.simps [simp del]

definition bigu_sub :: "bigu_t \<Rightarrow> bigu_t \<Rightarrow> bigu_t \<Rightarrow> bigu_t" where
  "bigu_sub a b c = bigu_sub_loop a b c 0 0"

text \<open>
  \<open>bigu_msb_index\<close>: \<open>63 - __builtin_clzll(w)\<close> is the index of the highest set bit of
  \<open>w\<close>, which the portable branch finds by scanning down from bit 63.
\<close>

fun highest_bit :: "u64 \<Rightarrow> nat \<Rightarrow> int" where
  "highest_bit w 0 = (if bit w 0 then 0 else - 1)"
| "highest_bit w (Suc k) = (if bit w (Suc k) then int (Suc k) else highest_bit w k)"

fun bigu_msb_loop :: "nat \<Rightarrow> bigu_t \<Rightarrow> int" where
  "bigu_msb_loop 0 a = - 1"
| "bigu_msb_loop (Suc i) a =
     (let w = a ! i
      in if w \<noteq> 0 then int i * 64 + highest_bit w 63
         else bigu_msb_loop i a)"

definition bigu_msb_index :: "bigu_t \<Rightarrow> int" where
  "bigu_msb_index a = bigu_msb_loop ACC_LIMBS a"

text \<open>
  \<open>bigu_extract_bits64\<close>: every call of the code passes \<open>start \<ge> 0\<close> (a negative
  \<open>start\<close> would shift by a negative amount), so \<open>start\<close> is a \<open>nat\<close>;
  \<open>cnt\<close> is the parameter \<open>count\<close>.
\<close>

definition bigu_extract_bits64 :: "bigu_t \<Rightarrow> nat \<Rightarrow> int \<Rightarrow> u64" where
  "bigu_extract_bits64 a start cnt =
     (if cnt \<le> 0 then 0
      else if start \<ge> ACC_LIMBS * 64 then 0
      else
        let widx0 = start div 64;
            off0 = start mod 64;
            w0 = (if widx0 < ACC_LIMBS then a ! widx0 else 0);
            w1 = (if widx0 + 1 < ACC_LIMBS then a ! (widx0 + 1) else 0);
            concat = push_bit 64 (ucast w1 :: u128) OR ucast w0;
            shifted = drop_bit off0 concat;
            mask = (if cnt = 64 then - 1 else push_bit (nat cnt) 1 - 1)
        in (ucast shifted :: u64) AND mask)"

definition bigu_has_any_below :: "bigu_t \<Rightarrow> int \<Rightarrow> bool" where
  "bigu_has_any_below a idx =
     (if idx \<le> 0 then False
      else
        let full_limbs = nat idx div 64;
            rem = nat idx mod 64
        in if \<exists>i \<in> set [0..<full_limbs]. a ! i \<noteq> 0 then True
           else if rem > 0 \<and> full_limbs < ACC_LIMBS
                   \<and> a ! full_limbs AND (push_bit rem 1 - 1) \<noteq> 0 then True
           else False)"

definition pack_double :: "int \<Rightarrow> int \<Rightarrow> u64 \<Rightarrow> u64" where
  "pack_double sign unbiased_exp frac52 =
     (let signbit = (if sign < 0 then push_bit 63 1 else 0);
          (expbits, fracbits) =
            (if unbiased_exp = INT_MIN then (0, frac52 AND (push_bit 52 1 - 1))
             else if unbiased_exp = INT_MAX then (0x7FF, 0)
             else
               let efield = unbiased_exp + 1023;
                   efield = (if efield \<le> 0 then 0 else efield)
               in (word_of_int efield AND 0x7FF, frac52 AND (push_bit 52 1 - 1)))
      in signbit OR push_bit 52 expbits OR fracbits)"

text \<open>The rounding step shared by the two branches of \<open>finalize_to_double\<close>.\<close>

definition round_up :: "bigu_t \<Rightarrow> int \<Rightarrow> u64 \<Rightarrow> bool" where
  "round_up mag g_idx sig =
     (let guard = (if g_idx \<ge> 0 then bigu_extract_bits64 mag (nat g_idx) 1 AND 1 \<noteq> 0 else False);
          sticky = bigu_has_any_below mag g_idx
      in guard \<and> (sticky \<or> sig AND 1 \<noteq> 0))"

definition finalize_to_double :: "bigu_t \<Rightarrow> bigu_t \<Rightarrow> u64" where
  "finalize_to_double Pos Neg =
     (let cmp = bigu_cmp Pos Neg
      in if cmp = 0 then 0
         else
           let (mag, sgn) =
                 (if cmp > 0 then (bigu_sub Pos Neg bigu_clear, 1)
                  else (bigu_sub Neg Pos bigu_clear, - 1));
               msb = bigu_msb_index mag
           in if msb < 0 then 0
              else
                let E_star = ACC_EMIN + msb
                in if E_star > 1023 then pack_double sgn INT_MAX 0
                   else if E_star < - 1022 then
                     (let bot = - 1074 - ACC_EMIN;
                          mant52 = bigu_extract_bits64 mag (nat bot) 52;
                          g_idx = bot - 1
                      in if round_up mag g_idx mant52 then
                           (let mant52 = mant52 + 1
                            in if mant52 = push_bit 52 1 then pack_double sgn (- 1022) 0
                               else pack_double sgn INT_MIN mant52)
                         else pack_double sgn INT_MIN mant52)
                   else
                     (let cut = msb - 52;
                          sig53 = bigu_extract_bits64 mag (nat cut) 53;
                          g_idx = cut - 1
                      in if round_up mag g_idx sig53 then
                           (let sig53 = sig53 + 1
                            in if sig53 = push_bit 53 1 then
                                 (let E_rounded = E_star + 1
                                  in if E_rounded > 1023 then pack_double sgn INT_MAX 0
                                     else pack_double sgn E_rounded 0)
                               else pack_double sgn E_star (sig53 AND (push_bit 52 1 - 1)))
                         else pack_double sgn E_star (sig53 AND (push_bit 52 1 - 1))))"

text \<open>The local variables of \<open>ddot_repro\<close> that live across loop iterations.\<close>

record ddot_state =
  pos :: bigu_t
  neg :: bigu_t
  overflow :: bool
  saw_nan :: bool
  saw_invalid_zero_inf :: bool
  saw_pos_inf :: bool
  saw_neg_inf :: bool

definition ddot_init :: ddot_state where
  "ddot_init =
     \<lparr>pos = bigu_clear, neg = bigu_clear, overflow = False, saw_nan = False,
      saw_invalid_zero_inf = False, saw_pos_inf = False, saw_neg_inf = False\<rparr>"

text \<open>One iteration of the \<open>for\<close> loop, on the bit patterns of \<open>x[i]\<close> and \<open>y[i]\<close>.\<close>

definition ddot_step :: "u64 \<Rightarrow> u64 \<Rightarrow> ddot_state \<Rightarrow> ddot_state" where
  "ddot_step xb yb st =
     (if is_nan_u64 xb \<or> is_nan_u64 yb then st\<lparr>saw_nan := True\<rparr>
      else
        let x_is_inf = is_inf_u64 xb;
            y_is_inf = is_inf_u64 yb;
            x_is_zero = is_zero_u64 xb;
            y_is_zero = is_zero_u64 yb
        in if (x_is_inf \<and> y_is_zero) \<or> (y_is_inf \<and> x_is_zero)
           then st\<lparr>saw_invalid_zero_inf := True\<rparr>
           else if x_is_inf \<or> y_is_inf then
             (let s = sign_of_u64 xb * sign_of_u64 yb
              in if s > 0 then st\<lparr>saw_pos_inf := True\<rparr> else st\<lparr>saw_neg_inf := True\<rparr>)
           else
             (case decode_double_SE xb of
                None \<Rightarrow> st\<lparr>saw_nan := True\<rparr>
              | Some (sx, Sx, E_x) \<Rightarrow>
                 (case decode_double_SE yb of
                    None \<Rightarrow> st\<lparr>saw_nan := True\<rparr>
                  | Some (sy, Sy, E_y) \<Rightarrow>
                     if Sx = 0 \<or> Sy = 0 then st
                     else
                       let Sprod = (ucast Sx :: u128) * ucast Sy;
                           Eprod = E_x + E_y
                       in if Eprod < ACC_EMIN then st
                          else
                            let shift = nat (Eprod - ACC_EMIN)
                            in if sx * sy > 0 then
                                 (let (p, ov) = bigu_add_shifted_u128 (pos st) Sprod shift (overflow st)
                                  in st\<lparr>pos := p, overflow := ov\<rparr>)
                               else
                                 (let (q, ov) = bigu_add_shifted_u128 (neg st) Sprod shift (overflow st)
                                  in st\<lparr>neg := q, overflow := ov\<rparr>))))"

text \<open>The \<open>for\<close> loop over \<open>i < n\<close>; \<open>x\<close> and \<open>y\<close> are the arrays behind the two pointers.\<close>

function ddot_loop :: "u64 list \<Rightarrow> u64 list \<Rightarrow> nat \<Rightarrow> nat \<Rightarrow> ddot_state \<Rightarrow> ddot_state" where
  "ddot_loop x y n i st =
     (if i < n then ddot_loop x y n (i + 1) (ddot_step (x ! i) (y ! i) st) else st)"
  by pat_completeness auto
termination
  by (relation "measure (\<lambda>(x, y, n, i, st). n - i)") auto

declare ddot_loop.simps [simp del]

text \<open>The code after the loop: the precedence of the flags, then the finalizer.\<close>

definition ddot_finish :: "ddot_state \<Rightarrow> u64" where
  "ddot_finish st =
     (if saw_nan st \<or> saw_invalid_zero_inf st then 0x7FF8000000000001
      else if saw_pos_inf st \<and> saw_neg_inf st then 0x7FF8000000000001
      else if saw_pos_inf st \<and> \<not> saw_neg_inf st then pack_double 1 INT_MAX 0
      else if \<not> saw_pos_inf st \<and> saw_neg_inf st then pack_double (- 1) INT_MAX 0
      else if overflow st then
        (let cmp = bigu_cmp (pos st) (neg st)
         in if cmp = 0 then 0
            else pack_double (if cmp > 0 then 1 else - 1) INT_MAX 0)
      else finalize_to_double (pos st) (neg st))"

definition ddot_repro :: "u64 list \<Rightarrow> u64 list \<Rightarrow> nat \<Rightarrow> u64" where
  "ddot_repro x y n = ddot_finish (ddot_loop x y n 0 ddot_init)"

section \<open>Notions used to state the properties\<close>

text \<open>The biased exponent field and the fraction field of a pattern, as numbers.\<close>

definition exp_field :: "u64 \<Rightarrow> nat" where
  "exp_field u = unat u div 2 ^ 52 mod 2 ^ 11"

definition frac_field :: "u64 \<Rightarrow> nat" where
  "frac_field u = unat u mod 2 ^ 52"

text \<open>
  The two conditions under which the loop body sets \<open>saw_invalid_zero_inf\<close>, or one of
  \<open>saw_pos_inf\<close> and \<open>saw_neg_inf\<close>, once neither operand is a NaN.
\<close>

definition zero_times_inf :: "u64 \<Rightarrow> u64 \<Rightarrow> bool" where
  "zero_times_inf a b \<longleftrightarrow> (is_inf_u64 a \<and> is_zero_u64 b) \<or> (is_inf_u64 b \<and> is_zero_u64 a)"

definition inf_product :: "u64 \<Rightarrow> u64 \<Rightarrow> bool" where
  "inf_product a b \<longleftrightarrow> (is_inf_u64 a \<or> is_inf_u64 b) \<and> \<not> zero_times_inf a b"

text \<open>
  The number a limb array stands for (little-endian, radix \<open>2 ^ 64\<close>), and the modulus of an
  accumulator of \<open>ACC_LIMBS\<close> limbs.
\<close>

fun bigu_val :: "bigu_t \<Rightarrow> nat" where
  "bigu_val [] = 0"
| "bigu_val (w # ws) = unat w + 2 ^ 64 * bigu_val ws"

definition acc_modulus :: nat where
  "acc_modulus = 2 ^ (WORD_BITS * ACC_LIMBS)"

text \<open>
  A finite pattern \<open>u\<close> stands for the number \<open>sign \<cdot> significand u \<cdot> 2 ^ exponent u\<close>
  (the decoding of \<open>decode_double_SE\<close>, with the exponent of a subnormal also given to zero).
\<close>

definition finite_u64 :: "u64 \<Rightarrow> bool" where
  "finite_u64 u \<longleftrightarrow> \<not> is_nan_u64 u \<and> \<not> is_inf_u64 u"

definition significand :: "u64 \<Rightarrow> nat" where
  "significand u = (if exp_field u = 0 then frac_field u else 2 ^ 52 + frac_field u)"

definition exponent :: "u64 \<Rightarrow> int" where
  "exponent u = (if exp_field u = 0 then - 1074 else int (exp_field u) - 1075)"

text \<open>
  The magnitude of the product of two finite patterns, in units of \<open>2 ^ ACC_EMIN\<close>, and
  what a pair contributes to the positive and to the negative accumulator.
\<close>

definition product_units :: "u64 \<Rightarrow> u64 \<Rightarrow> nat" where
  "product_units a b = significand a * significand b * 2 ^ nat (exponent a + exponent b - ACC_EMIN)"

definition pos_units :: "u64 \<Rightarrow> u64 \<Rightarrow> nat" where
  "pos_units a b =
     (if finite_u64 a \<and> finite_u64 b \<and> sign_of_u64 a * sign_of_u64 b > 0
      then product_units a b else 0)"

definition neg_units :: "u64 \<Rightarrow> u64 \<Rightarrow> nat" where
  "neg_units a b =
     (if finite_u64 a \<and> finite_u64 b \<and> \<not> sign_of_u64 a * sign_of_u64 b > 0
      then product_units a b else 0)"

text \<open>Negation of a double: bit 63 of the pattern is flipped.\<close>

definition negate_u64 :: "u64 \<Rightarrow> u64" where
  "negate_u64 u = u XOR push_bit 63 1"

text \<open>
  The borrow that enters limb \<open>i\<close> in \<open>bigu_sub\<close>, and the limb that the loop writes at
  index \<open>i\<close>: the loop body, iterated from limb \<open>0\<close>.
\<close>

fun sub_borrow :: "bigu_t \<Rightarrow> bigu_t \<Rightarrow> nat \<Rightarrow> u64" where
  "sub_borrow a b 0 = 0"
| "sub_borrow a b (Suc i) =
     ucast (drop_bit 64 ((ucast (a ! i) :: u128) - ucast (b ! i + sub_borrow a b i)) AND 1)"

definition sub_limb :: "bigu_t \<Rightarrow> bigu_t \<Rightarrow> nat \<Rightarrow> u64" where
  "sub_limb a b i = ucast ((ucast (a ! i) :: u128) - ucast (b ! i + sub_borrow a b i))"

text \<open>
  The part of \<open>finalize_to_double\<close> that follows the subtraction, as a function of the
  magnitude and the sign.
\<close>

definition round_and_pack :: "bigu_t \<Rightarrow> int \<Rightarrow> u64" where
  "round_and_pack mag sg =
     (let msb = bigu_msb_index mag
      in if msb < 0 then 0
         else
           let E_star = ACC_EMIN + msb
           in if E_star > 1023 then pack_double sg INT_MAX 0
              else if E_star < - 1022 then
                (let bot = - 1074 - ACC_EMIN;
                     mant52 = bigu_extract_bits64 mag (nat bot) 52;
                     g_idx = bot - 1
                 in if round_up mag g_idx mant52 then
                      (let mant52 = mant52 + 1
                       in if mant52 = push_bit 52 1 then pack_double sg (- 1022) 0
                          else pack_double sg INT_MIN mant52)
                    else pack_double sg INT_MIN mant52)
              else
                (let cut = msb - 52;
                     sig53 = bigu_extract_bits64 mag (nat cut) 53;
                     g_idx = cut - 1
                 in if round_up mag g_idx sig53 then
                      (let sig53 = sig53 + 1
                       in if sig53 = push_bit 53 1 then
                            (let E_rounded = E_star + 1
                             in if E_rounded > 1023 then pack_double sg INT_MAX 0
                                else pack_double sg E_rounded 0)
                          else pack_double sg E_star (sig53 AND (push_bit 52 1 - 1)))
                    else pack_double sg E_star (sig53 AND (push_bit 52 1 - 1))))"

section \<open>Bit fields of a binary64 pattern, read arithmetically\<close>

lemma frac_mask: "(push_bit 52 1 - 1 :: u64) = mask 52"
  by (simp add: mask_eq_exp_minus_1)

lemma exp_mask: "(0x7FF :: u64) = mask 11"
  by (simp add: mask_eq_exp_minus_1)

lemma not_sign_mask: "(NOT (push_bit 63 1) :: u64) = mask 63"
  by (rule bit_word_eqI) (auto simp add: bit_simps simp del: push_bit_of_1)

lemma frac_unat: "unat ((u::u64) AND (push_bit 52 1 - 1)) = unat u mod 2 ^ 52"
  unfolding frac_mask
  by (simp flip: take_bit_eq_mask add: unsigned_take_bit_eq take_bit_eq_mod unat_mod)

lemma exp_unat: "unat (drop_bit 52 (u::u64) AND 0x7FF) = unat u div 2 ^ 52 mod 2 ^ 11"
  unfolding exp_mask
  by (simp flip: take_bit_eq_mask
      add: unsigned_take_bit_eq take_bit_eq_mod unsigned_drop_bit_eq drop_bit_eq_div
        unat_mod unat_div)

lemma low63_unat: "unat ((u::u64) AND NOT (push_bit 63 1)) = unat u mod 2 ^ 63"
  unfolding not_sign_mask
  by (simp flip: take_bit_eq_mask add: unsigned_take_bit_eq take_bit_eq_mod unat_mod)

lemma sign_unat: "drop_bit 63 (u::u64) \<noteq> 0 \<longleftrightarrow> 2 ^ 63 \<le> unat u"
proof -
  have "drop_bit 63 u = 0 \<longleftrightarrow> unat (drop_bit 63 u) = 0"
    by (simp add: unat_eq_0)
  also have "\<dots> \<longleftrightarrow> unat u div 2 ^ 63 = 0"
    by (simp add: unsigned_drop_bit_eq drop_bit_eq_div unat_div)
  also have "\<dots> \<longleftrightarrow> unat u < 2 ^ 63"
    by (simp add: div_eq_0_iff)
  finally show ?thesis by auto
qed

lemma exp_field_lt: "exp_field u < 2048"
  by (simp add: exp_field_def)

lemma frac_field_lt: "frac_field u < 2 ^ 52"
  by (simp add: frac_field_def)

lemma exp_word_eq: "drop_bit 52 (u::u64) AND 0x7FF = of_nat k \<longleftrightarrow> exp_field u = k" if "k < 2048"
proof -
  have "drop_bit 52 u AND 0x7FF = (of_nat k :: u64) \<longleftrightarrow> unat (drop_bit 52 u AND 0x7FF) = unat (of_nat k :: u64)"
    by (simp add: word_unat_eq_iff)
  also have "unat (of_nat k :: u64) = k"
    using that by (simp add: unat_of_nat)
  finally show ?thesis by (simp add: exp_unat exp_field_def)
qed

lemma frac_word_eq0: "(u::u64) AND (push_bit 52 1 - 1) = 0 \<longleftrightarrow> frac_field u = 0"
proof -
  have "u AND (push_bit 52 1 - 1) = 0 \<longleftrightarrow> unat (u AND (push_bit 52 1 - 1)) = 0"
    by (simp only: unat_eq_0)
  then show ?thesis by (simp only: frac_unat frac_field_def)
qed

lemma is_nan_iff: "is_nan_u64 u \<longleftrightarrow> exp_field u = 2047 \<and> frac_field u \<noteq> 0"
  using exp_word_eq [of 2047 u] frac_word_eq0 [of u]
  by (simp add: is_nan_u64_def Let_def)

lemma is_inf_iff: "is_inf_u64 u \<longleftrightarrow> exp_field u = 2047 \<and> frac_field u = 0"
  using exp_word_eq [of 2047 u] frac_word_eq0 [of u]
  by (simp add: is_inf_u64_def Let_def)

lemma is_zero_iff: "is_zero_u64 u \<longleftrightarrow> unat u mod 2 ^ 63 = 0"
proof -
  have "is_zero_u64 u \<longleftrightarrow> unat (u AND NOT (push_bit 63 1)) = 0"
    unfolding is_zero_u64_def by (simp only: unat_eq_0)
  then show ?thesis by (simp only: low63_unat)
qed

lemma low63_split: "unat (u::u64) mod 2 ^ 63 = exp_field u * 2 ^ 52 + frac_field u"
proof -
  have "unat u mod 2 ^ 63 = unat u mod (2 ^ 52 * 2 ^ 11)" by simp
  also have "\<dots> = 2 ^ 52 * (unat u div 2 ^ 52 mod 2 ^ 11) + unat u mod 2 ^ 52"
    by (rule mod_mult2_eq)
  finally show ?thesis by (simp add: exp_field_def frac_field_def)
qed

lemma is_zero_fields: "is_zero_u64 u \<longleftrightarrow> exp_field u = 0 \<and> frac_field u = 0"
  unfolding is_zero_iff low63_split by simp

lemma decode_None_iff: "decode_double_SE u = None \<longleftrightarrow> is_nan_u64 u \<or> is_inf_u64 u"
  by (auto simp: decode_double_SE_def is_nan_u64_def is_inf_u64_def Let_def)

lemma decode_fields:
  "decode_double_SE u =
     (if exp_field u = 2047 then None
      else if exp_field u = 0 then
        (if frac_field u = 0 then Some (sign_of_u64 u, 0, 0)
         else Some (sign_of_u64 u, u AND (push_bit 52 1 - 1), - 1074))
      else Some (sign_of_u64 u, push_bit 52 1 OR (u AND (push_bit 52 1 - 1)),
                 int (exp_field u) - 1075))"
  using exp_word_eq [of 2047 u] exp_word_eq [of 0 u] frac_word_eq0 [of u]
  by (simp add: decode_double_SE_def Let_def exp_unat exp_field_def)

section \<open>The loop as a fold, and the flags it latches\<close>

lemma ddot_loop_fold:
  "ddot_loop x y n i st = fold (\<lambda>k. ddot_step (x ! k) (y ! k)) [i..<n] st"
proof (induction x y n i st rule: ddot_loop.induct)
  case (1 x y n i st)
  show ?case
  proof (cases "i < n")
    case True
    then have "[i..<n] = i # [i + 1..<n]"
      by (simp add: upt_conv_Cons)
    with True "1.IH" show ?thesis
      by (subst ddot_loop.simps) simp
  next
    case False
    then show ?thesis
      by (subst ddot_loop.simps) simp
  qed
qed

lemma step_saw_nan:
  "saw_nan (ddot_step a b st) \<longleftrightarrow> saw_nan st \<or> is_nan_u64 a \<or> is_nan_u64 b"
  by (auto simp: ddot_step_def Let_def decode_None_iff split: option.splits prod.splits)

lemma step_saw_invalid:
  "saw_invalid_zero_inf (ddot_step a b st) \<longleftrightarrow>
     saw_invalid_zero_inf st \<or> (\<not> is_nan_u64 a \<and> \<not> is_nan_u64 b \<and> zero_times_inf a b)"
  by (auto simp: ddot_step_def zero_times_inf_def Let_def split: option.splits prod.splits)

lemma step_saw_pos_inf:
  "saw_pos_inf (ddot_step a b st) \<longleftrightarrow>
     saw_pos_inf st \<or> (\<not> is_nan_u64 a \<and> \<not> is_nan_u64 b \<and> inf_product a b \<and> sign_of_u64 a * sign_of_u64 b > 0)"
  by (auto simp: ddot_step_def zero_times_inf_def inf_product_def Let_def split: option.splits prod.splits)

lemma step_saw_neg_inf:
  "saw_neg_inf (ddot_step a b st) \<longleftrightarrow>
     saw_neg_inf st \<or> (\<not> is_nan_u64 a \<and> \<not> is_nan_u64 b \<and> inf_product a b \<and> \<not> sign_of_u64 a * sign_of_u64 b > 0)"
  by (auto simp: ddot_step_def zero_times_inf_def inf_product_def Let_def split: option.splits prod.splits)

lemma fold_saw_nan:
  "saw_nan (fold (\<lambda>k. ddot_step (x ! k) (y ! k)) ks st) \<longleftrightarrow>
     saw_nan st \<or> (\<exists>k \<in> set ks. is_nan_u64 (x ! k) \<or> is_nan_u64 (y ! k))"
  by (induction ks arbitrary: st) (auto simp: step_saw_nan)

lemma fold_saw_invalid:
  "saw_invalid_zero_inf (fold (\<lambda>k. ddot_step (x ! k) (y ! k)) ks st) \<longleftrightarrow>
     saw_invalid_zero_inf st \<or>
     (\<exists>k \<in> set ks. \<not> is_nan_u64 (x ! k) \<and> \<not> is_nan_u64 (y ! k) \<and> zero_times_inf (x ! k) (y ! k))"
  by (induction ks arbitrary: st) (auto simp: step_saw_invalid)

lemma fold_saw_pos_inf:
  "saw_pos_inf (fold (\<lambda>k. ddot_step (x ! k) (y ! k)) ks st) \<longleftrightarrow>
     saw_pos_inf st \<or>
     (\<exists>k \<in> set ks. \<not> is_nan_u64 (x ! k) \<and> \<not> is_nan_u64 (y ! k) \<and> inf_product (x ! k) (y ! k)
        \<and> sign_of_u64 (x ! k) * sign_of_u64 (y ! k) > 0)"
  by (induction ks arbitrary: st) (auto simp: step_saw_pos_inf)

lemma fold_saw_neg_inf:
  "saw_neg_inf (fold (\<lambda>k. ddot_step (x ! k) (y ! k)) ks st) \<longleftrightarrow>
     saw_neg_inf st \<or>
     (\<exists>k \<in> set ks. \<not> is_nan_u64 (x ! k) \<and> \<not> is_nan_u64 (y ! k) \<and> inf_product (x ! k) (y ! k)
        \<and> \<not> sign_of_u64 (x ! k) * sign_of_u64 (y ! k) > 0)"
  by (induction ks arbitrary: st) (auto simp: step_saw_neg_inf)

lemma init_flags [simp]:
  "\<not> saw_nan ddot_init" "\<not> saw_invalid_zero_inf ddot_init"
  "\<not> saw_pos_inf ddot_init" "\<not> saw_neg_inf ddot_init" "\<not> overflow ddot_init"
  "pos ddot_init = bigu_clear" "neg ddot_init = bigu_clear"
  by (simp_all add: ddot_init_def)

lemma loop_saw_nan:
  "saw_nan (ddot_loop x y n 0 ddot_init) \<longleftrightarrow> (\<exists>k<n. is_nan_u64 (x ! k) \<or> is_nan_u64 (y ! k))"
  by (auto simp: ddot_loop_fold fold_saw_nan)

lemma loop_saw_invalid:
  "saw_invalid_zero_inf (ddot_loop x y n 0 ddot_init) \<longleftrightarrow>
     (\<exists>k<n. \<not> is_nan_u64 (x ! k) \<and> \<not> is_nan_u64 (y ! k) \<and> zero_times_inf (x ! k) (y ! k))"
  by (auto simp: ddot_loop_fold fold_saw_invalid)

lemma loop_saw_pos_inf:
  "saw_pos_inf (ddot_loop x y n 0 ddot_init) \<longleftrightarrow>
     (\<exists>k<n. \<not> is_nan_u64 (x ! k) \<and> \<not> is_nan_u64 (y ! k) \<and> inf_product (x ! k) (y ! k)
        \<and> sign_of_u64 (x ! k) * sign_of_u64 (y ! k) > 0)"
  by (auto simp: ddot_loop_fold fold_saw_pos_inf)

lemma loop_saw_neg_inf:
  "saw_neg_inf (ddot_loop x y n 0 ddot_init) \<longleftrightarrow>
     (\<exists>k<n. \<not> is_nan_u64 (x ! k) \<and> \<not> is_nan_u64 (y ! k) \<and> inf_product (x ! k) (y ! k)
        \<and> \<not> sign_of_u64 (x ! k) * sign_of_u64 (y ! k) > 0)"
  by (auto simp: ddot_loop_fold fold_saw_neg_inf)

lemma pack_pos_inf: "pack_double 1 INT_MAX 0 = 0x7FF0000000000000"
  by (simp add: pack_double_def)

lemma pack_neg_inf: "pack_double (- 1) INT_MAX 0 = 0xFFF0000000000000"
  by (simp add: pack_double_def)

section \<open>Packing a sign, an exponent and a fraction\<close>

lemma unat_push_take:
  fixes w :: u64
  assumes "m + n \<le> 64"
  shows "unat (push_bit n (take_bit m w)) = 2 ^ n * (unat w mod 2 ^ m)"
proof -
  have "unat w mod 2 ^ m < 2 ^ m" by simp
  then have "2 ^ n * (unat w mod 2 ^ m) < 2 ^ n * 2 ^ m" by simp
  also have "\<dots> = 2 ^ (m + n)" by (simp add: power_add)
  also have "\<dots> \<le> (2::nat) ^ 64" using assms by (intro power_increasing) simp_all
  finally have "2 ^ n * (unat w mod 2 ^ m) < (2::nat) ^ 64" .
  then show ?thesis
    by (subst unsigned_push_bit_eq, subst unsigned_take_bit_eq)
      (simp add: take_bit_eq_mod push_bit_eq_mult mult.commute)
qed

lemma pack_or_add:
  fixes s e f :: u64
  shows "push_bit 63 (take_bit 1 s) OR push_bit 52 (take_bit 11 e) OR take_bit 52 f
       = push_bit 63 (take_bit 1 s) + (push_bit 52 (take_bit 11 e) + take_bit 52 f)"
proof -
  have "push_bit 52 (take_bit 11 e) + take_bit 52 f = push_bit 52 (take_bit 11 e) OR take_bit 52 f"
    by (rule disjunctive_add_eq_or, rule bit_word_eqI) (auto simp: bit_simps)
  moreover have "push_bit 63 (take_bit 1 s) + (push_bit 52 (take_bit 11 e) OR take_bit 52 f)
      = push_bit 63 (take_bit 1 s) OR (push_bit 52 (take_bit 11 e) OR take_bit 52 f)"
    by (rule disjunctive_add_eq_or, rule bit_word_eqI) (auto simp: bit_simps)
  ultimately show ?thesis by (simp only:)
qed

lemma pack_unat:
  fixes s e f :: u64
  shows "unat (push_bit 63 (take_bit 1 s) OR push_bit 52 (take_bit 11 e) OR take_bit 52 f)
       = 2 ^ 63 * (unat s mod 2) + 2 ^ 52 * (unat e mod 2 ^ 11) + unat f mod 2 ^ 52"
proof -
  have a: "unat (push_bit 63 (take_bit 1 s)) = 2 ^ 63 * (unat s mod 2 ^ 1)"
    by (rule unat_push_take) simp
  have b: "unat (push_bit 52 (take_bit 11 e)) = 2 ^ 52 * (unat e mod 2 ^ 11)"
    by (rule unat_push_take) simp
  have c: "unat (take_bit 52 f) = unat f mod 2 ^ 52"
    by (subst unsigned_take_bit_eq) (simp add: take_bit_eq_mod)
  have s1: "unat s mod 2 ^ 1 \<le> 1" by simp
  have e1: "unat e mod 2 ^ 11 \<le> 2047" 
    using mod_less_divisor [of "2 ^ 11" "unat e"] by simp
  have f1: "unat f mod 2 ^ 52 < 2 ^ 52" by simp
  have lt1: "2 ^ 52 * (unat e mod 2 ^ 11) + unat f mod 2 ^ 52 < 2 ^ 63"
    using e1 f1 by simp
  have bc: "unat (push_bit 52 (take_bit 11 e) + take_bit 52 f) = 2 ^ 52 * (unat e mod 2 ^ 11) + unat f mod 2 ^ 52"
    using lt1 unat_add_lem [THEN iffD1, of "push_bit 52 (take_bit 11 e)" "take_bit 52 f"]
    unfolding b c by simp
  have lt2: "2 ^ 63 * (unat s mod 2 ^ 1) + (2 ^ 52 * (unat e mod 2 ^ 11) + unat f mod 2 ^ 52) < 2 ^ 64"
    using s1 lt1 by simp
  have "unat (push_bit 63 (take_bit 1 s) + (push_bit 52 (take_bit 11 e) + take_bit 52 f))
      = 2 ^ 63 * (unat s mod 2 ^ 1) + (2 ^ 52 * (unat e mod 2 ^ 11) + unat f mod 2 ^ 52)"
    using lt2 unat_add_lem [THEN iffD1, of "push_bit 63 (take_bit 1 s)" "push_bit 52 (take_bit 11 e) + take_bit 52 f"]
    unfolding a bc by simp
  then show ?thesis
    unfolding pack_or_add by simp
qed

lemma pack_double_canon:
  "pack_double sign e f =
     push_bit 63 (take_bit 1 (if sign < 0 then 1 else 0))
     OR push_bit 52 (take_bit 11 (if e = INT_MIN then 0 else if e = INT_MAX then 0x7FF
                                  else word_of_int (if e + 1023 \<le> 0 then 0 else e + 1023)))
     OR take_bit 52 (if e = INT_MAX then 0 else f)"
proof -
  have m52: "\<And>w::u64. w AND (push_bit 52 1 - 1) = take_bit 52 w"
    unfolding frac_mask by (simp only: take_bit_eq_mask)
  have m11: "\<And>w::u64. w AND 0x7FF = take_bit 11 w"
    unfolding exp_mask by (simp only: take_bit_eq_mask)
  have k: "(0x7FF :: u64) = take_bit 11 0x7FF" by simp
  show ?thesis
    unfolding pack_double_def Let_def m52 m11
    by (simp del: push_bit_of_1 take_bit_of_1 add: k [symmetric])
qed

lemma pack_double_unat:
  "unat (pack_double sign e f) =
     2 ^ 63 * (if sign < 0 then 1 else 0)
     + 2 ^ 52 * (if e = INT_MIN then 0 else if e = INT_MAX then 2047 else nat (e + 1023) mod 2048)
     + (if e = INT_MAX then 0 else unat f mod 2 ^ 52)"
proof -
  have w: "unat (word_of_int (if e + 1023 \<le> 0 then 0 else e + 1023) :: u64) mod 2 ^ 11 = nat (e + 1023) mod 2048"
  proof (cases "e + 1023 \<le> 0")
    case True
    then show ?thesis by simp
  next
    case False
    then have "(word_of_int (e + 1023) :: u64) = of_nat (nat (e + 1023))"
      by simp
    then have "unat (word_of_int (e + 1023) :: u64) = nat (e + 1023) mod 2 ^ 64"
      by (simp only: unat_of_nat) simp
    moreover have "nat (e + 1023) mod 2 ^ 64 mod 2 ^ 11 = nat (e + 1023) mod 2 ^ 11"
      by (rule mod_mod_cancel) simp
    ultimately show ?thesis using False by simp
  qed
  show ?thesis
    unfolding pack_double_canon pack_unat
    using w by (simp del: push_bit_of_1 take_bit_of_1)
qed

lemma fields_of_sum:
  assumes "s \<le> 1" "E < 2048" "F < 2 ^ 52"
  shows "(2 ^ 63 * s + 2 ^ 52 * E + F) div 2 ^ 52 mod 2 ^ 11 = (E::nat)"
    and "(2 ^ 63 * s + 2 ^ 52 * E + F) mod 2 ^ 52 = F"
proof -
  have eq: "2 ^ 63 * s + 2 ^ 52 * E + F = F + (2 ^ 11 * s + E) * 2 ^ 52"
    by simp
  have "(2 ^ 63 * s + 2 ^ 52 * E + F) div 2 ^ 52 = 2 ^ 11 * s + E"
    unfolding eq using assms(3) by (simp only: div_mult_self1) simp
  then show "(2 ^ 63 * s + 2 ^ 52 * E + F) div 2 ^ 52 mod 2 ^ 11 = E"
    using assms(2) by simp
  show "(2 ^ 63 * s + 2 ^ 52 * E + F) mod 2 ^ 52 = F"
    unfolding eq using assms(3) by (simp only: mod_mult_self1) simp
qed

lemma exp_field_pack:
  "exp_field (pack_double sign e f) =
     (if e = INT_MIN then 0 else if e = INT_MAX then 2047 else nat (e + 1023) mod 2048)"
  unfolding exp_field_def pack_double_unat
  by (rule fields_of_sum) simp_all

lemma frac_field_pack:
  "frac_field (pack_double sign e f) = (if e = INT_MAX then 0 else unat f mod 2 ^ 52)"
  unfolding frac_field_def pack_double_unat
  by (rule fields_of_sum) simp_all

lemma pack_not_nan:
  assumes "e = INT_MIN \<or> e = INT_MAX \<or> e \<le> 1023"
  shows "\<not> is_nan_u64 (pack_double sign e f)"
proof -
  have "nat (e + 1023) mod 2048 \<noteq> 2047" if "e \<le> 1023"
  proof -
    from that have "nat (e + 1023) < 2047" by simp
    then show ?thesis by simp
  qed
  with assms show ?thesis
    unfolding is_nan_iff exp_field_pack frac_field_pack by auto
qed

lemma zero_not_nan: "\<not> is_nan_u64 0"
  by (simp add: is_nan_u64_def)

lemma finalize_not_nan: "\<not> is_nan_u64 (finalize_to_double Pos Neg)"
  unfolding finalize_to_double_def Let_def
  by (simp add: pack_not_nan zero_not_nan split: prod.splits)

lemma canonical_is_nan: "is_nan_u64 0x7FF8000000000001"
  by (simp add: is_nan_u64_def)

section \<open>Decoding, signs and comparison\<close>

lemma sign_of_u64_cases: "sign_of_u64 u = 1 \<or> sign_of_u64 u = - 1"
  by (simp add: sign_of_u64_def)

lemma sign_prod_pos: "sign_of_u64 a * sign_of_u64 b > 0 \<longleftrightarrow> sign_of_u64 a * sign_of_u64 b = 1"
  using sign_of_u64_cases [of a] sign_of_u64_cases [of b] by auto

lemma sign_prod_neg: "\<not> sign_of_u64 a * sign_of_u64 b > 0 \<longleftrightarrow> sign_of_u64 a * sign_of_u64 b = - 1"
  using sign_of_u64_cases [of a] sign_of_u64_cases [of b] by auto

lemma decode_exponent_range:
  assumes "decode_double_SE u = Some (s, S, E)" and "S \<noteq> 0"
  shows "- 1074 \<le> E \<and> E \<le> 971"
proof -
  have "exp_field u < 2048" by (rule exp_field_lt)
  with assms show ?thesis
    unfolding decode_fields by (auto split: if_splits)
qed

lemma decode_finite:
  assumes "\<not> is_nan_u64 u" and "\<not> is_inf_u64 u"
  shows "\<exists>S E. decode_double_SE u = Some (sign_of_u64 u, S, E) \<and> (S = 0 \<longleftrightarrow> is_zero_u64 u)"
proof -
  have ne: "exp_field u \<noteq> 2047"
    using assms unfolding is_nan_iff is_inf_iff by auto
  have f: "u AND (push_bit 52 1 - 1) = 0 \<longleftrightarrow> frac_field u = 0"
    by (rule frac_word_eq0)
  have nz: "push_bit 52 1 OR (u AND (push_bit 52 1 - 1)) \<noteq> 0"
  proof -
    have "bit (push_bit 52 1 OR (u AND (push_bit 52 1 - 1))) 52"
      by (simp add: bit_simps del: push_bit_of_1)
    then show ?thesis by auto
  qed
  show ?thesis
    unfolding decode_fields is_zero_fields using ne f nz by auto
qed

lemma bigu_cmp_loop_refl: "bigu_cmp_loop k a a = 0"
  by (induction k) simp_all

lemma bigu_cmp_refl: "bigu_cmp a a = 0"
  by (simp add: bigu_cmp_def bigu_cmp_loop_refl)

lemma loop_zero: "ddot_loop x y 0 0 st = st"
  by (subst ddot_loop.simps) simp

section \<open>The value of a limb array\<close>

lemma bigu_val_lt: "bigu_val a < 2 ^ (64 * length a)"
proof (induction a)
  case Nil
  then show ?case by simp
next
  case (Cons w ws)
  have "unat w < 2 ^ 64" using unsigned_less [of w] by simp
  moreover have "bigu_val ws + 1 \<le> 2 ^ (64 * length ws)" using Cons.IH by simp
  then have "2 ^ 64 * (bigu_val ws + 1) \<le> 2 ^ 64 * 2 ^ (64 * length ws)"
    by (rule mult_le_mono2)
  ultimately have "unat w + 2 ^ 64 * bigu_val ws < 2 ^ 64 * 2 ^ (64 * length ws)"
    by simp
  then show ?case by (simp add: power_add)
qed

lemma bigu_val_bound: "length a = ACC_LIMBS \<Longrightarrow> bigu_val a < acc_modulus"
  using bigu_val_lt [of a] by (simp add: acc_modulus_def)

lemma bigu_val_append: "bigu_val (a @ b) = bigu_val a + 2 ^ (64 * length a) * bigu_val b"
  by (induction a) (simp_all add: power_add algebra_simps)

lemma bigu_val_replicate0 [simp]: "bigu_val (replicate n 0) = 0"
  by (induction n) simp_all

lemma bigu_val_clear [simp]: "bigu_val bigu_clear = 0"
  by (simp add: bigu_clear_def)

lemma length_clear [simp]: "length bigu_clear = ACC_LIMBS"
  by (simp add: bigu_clear_def)

lemma bigu_val_update:
  "i < length a \<Longrightarrow>
   bigu_val (a[i := w]) + unat (a ! i) * 2 ^ (64 * i) = bigu_val a + unat w * 2 ^ (64 * i)"
proof (induction a arbitrary: i)
  case Nil
  then show ?case by simp
next
  case (Cons v vs)
  show ?case
  proof (cases i)
    case 0
    then show ?thesis by simp
  next
    case (Suc j)
    with Cons.prems have "j < length vs" by simp
    from Cons.IH [OF this]
    have "2 ^ 64 * (bigu_val (vs[j := w]) + unat (vs ! j) * 2 ^ (64 * j))
        = 2 ^ 64 * (bigu_val vs + unat w * 2 ^ (64 * j))"
      by simp
    then show ?thesis
      using Suc by (simp add: algebra_simps power_add)
  qed
qed

lemma bigu_val_inj:
  "length a = length b \<Longrightarrow> bigu_val a = bigu_val b \<Longrightarrow> a = b"
proof (induction a arbitrary: b)
  case Nil
  then show ?case by simp
next
  case (Cons v vs)
  then obtain w ws where b: "b = w # ws" by (cases b) auto
  with Cons.prems have eq: "unat v + 2 ^ 64 * bigu_val vs = unat w + 2 ^ 64 * bigu_val ws"
    by simp
  have lv: "unat v < 2 ^ 64" using unsigned_less [of v] by simp
  have lw: "unat w < 2 ^ 64" using unsigned_less [of w] by simp
  from eq have "(unat v + 2 ^ 64 * bigu_val vs) mod 2 ^ 64 = (unat w + 2 ^ 64 * bigu_val ws) mod 2 ^ 64"
    by simp
  with lv lw have "unat v = unat w" by simp
  then have vw: "v = w" by (simp add: word_unat_eq_iff)
  with eq have "bigu_val vs = bigu_val ws" using \<open>unat v = unat w\<close> by simp
  with Cons.IH [of ws] Cons.prems b have "vs = ws" by simp
  with vw b show ?case by simp
qed

section \<open>Widening and narrowing between 64 and 128 bits\<close>

lemma unat_up: "unat (ucast (x::u64) :: u128) = unat x"
proof -
  have "unat x < 2 ^ 64" using unsigned_less [of x] by simp
  then have "unat x < 2 ^ 128" by (rule less_le_trans) simp
  then show ?thesis
    by (subst unsigned_ucast_eq) (simp add: take_bit_eq_mod)
qed

lemma unat_down: "unat (ucast (s::u128) :: u64) = unat s mod 2 ^ 64"
  by (subst unsigned_ucast_eq) (simp add: take_bit_eq_mod)

lemma unat_high: "unat (ucast (drop_bit 64 (s::u128)) :: u64) = unat s div 2 ^ 64"
proof -
  have "unat s < 2 ^ 128" using unsigned_less [of s] by simp
  then have "unat s div 2 ^ 64 < 2 ^ 64"
    by (simp add: less_mult_imp_div_less)
  then show ?thesis
    unfolding unat_down by (subst unat_drop_bit_eq) (simp add: drop_bit_eq_div)
qed

section \<open>Adding into an accumulator\<close>

lemma add_word_at_correct:
  assumes "idx < ACC_LIMBS" and "length a = ACC_LIMBS"
    and "add_word_at a idx w c ov = (a', c', ov')"
  shows "length a' = ACC_LIMBS \<and> ov' = ov \<and>
         bigu_val a' + unat c' * 2 ^ (64 * (idx + 1)) = bigu_val a + (unat w + unat c) * 2 ^ (64 * idx)"
proof (cases "w = 0 \<and> c = 0")
  case True
  with assms show ?thesis by (simp add: add_word_at_def)
next
  case False
  define s where "s = (ucast (a ! idx) :: u128) + ucast w + ucast c"
  have la: "unat (a ! idx) < 2 ^ 64" using unsigned_less [of "a ! idx"] by simp
  have lw: "unat w < 2 ^ 64" using unsigned_less [of w] by simp
  have lc: "unat c < 2 ^ 64" using unsigned_less [of c] by simp
  have s1: "unat ((ucast (a ! idx) :: u128) + ucast w) = unat (a ! idx) + unat w"
    using la lw unat_add_lem [THEN iffD1, of "ucast (a ! idx) :: u128" "ucast w"]
    by (simp add: unat_up)
  have s2: "unat s = unat (a ! idx) + unat w + unat c"
    unfolding s_def
    using la lw lc unat_add_lem [THEN iffD1, of "(ucast (a ! idx) :: u128) + ucast w" "ucast c"]
    by (simp add: unat_up s1)
  from False assms have res: "a' = a[idx := ucast s]" "c' = ucast (drop_bit 64 s)" "ov' = ov"
    by (auto simp: add_word_at_def Let_def s_def)
  have idx: "idx < length a" using assms by simp
  have "bigu_val a' + unat (a ! idx) * 2 ^ (64 * idx) = bigu_val a + (unat s mod 2 ^ 64) * 2 ^ (64 * idx)"
    unfolding res using bigu_val_update [OF idx, of "ucast s"] by (simp add: unat_down)
  moreover have "unat c' * 2 ^ (64 * (idx + 1)) = (unat s div 2 ^ 64) * 2 ^ 64 * 2 ^ (64 * idx)"
    unfolding res by (simp add: unat_high power_add)
  moreover have "unat s = (unat s div 2 ^ 64) * 2 ^ 64 + unat s mod 2 ^ 64"
    by simp
  then have "unat s * 2 ^ (64 * idx)
      = (unat s div 2 ^ 64) * 2 ^ 64 * 2 ^ (64 * idx) + (unat s mod 2 ^ 64) * 2 ^ (64 * idx)"
    by (metis add_mult_distrib)
  ultimately have "bigu_val a' + unat c' * 2 ^ (64 * (idx + 1)) + unat (a ! idx) * 2 ^ (64 * idx)
      = bigu_val a + unat s * 2 ^ (64 * idx)"
    by linarith
  then have "bigu_val a' + unat c' * 2 ^ (64 * (idx + 1))
      = bigu_val a + (unat w + unat c) * 2 ^ (64 * idx)"
    unfolding s2 by (simp add: add_mult_distrib)
  with res assms show ?thesis by simp
qed

lemma carry_loop_correct:
  assumes "i \<le> ACC_LIMBS" and "length a = ACC_LIMBS"
    and "carry_loop a i c ov = (a', ov')"
  shows "length a' = ACC_LIMBS \<and>
         bigu_val a' = (bigu_val a + unat c * 2 ^ (64 * i)) mod acc_modulus \<and>
         (ov' \<longleftrightarrow> ov \<or> acc_modulus \<le> bigu_val a + unat c * 2 ^ (64 * i))"
  using assms
proof (induction a i c ov rule: carry_loop.induct)
  case (1 a i c ov)
  have bound: "bigu_val a < acc_modulus"
    using "1.prems" by (simp add: bigu_val_bound)
  show ?case
  proof (cases "c = 0")
    case True
    with "1.prems" bound show ?thesis
      by (subst (asm) carry_loop.simps) simp
  next
    case c: False
    then have cpos: "1 \<le> unat c" by (simp add: unat_gt_0 Suc_leI)
    show ?thesis
    proof (cases "ACC_LIMBS \<le> i")
      case True
      with "1.prems" have i: "i = ACC_LIMBS" by simp
      have m: "(2::nat) ^ (64 * i) = acc_modulus" by (simp add: i acc_modulus_def)
      have "a' = a" "ov' = True"
        using "1.prems"(3) c True by (subst (asm) carry_loop.simps, simp)+
      moreover have "acc_modulus \<le> bigu_val a + unat c * acc_modulus"
        using cpos by (simp add: trans_le_add2)
      ultimately show ?thesis
        using "1.prems" bound unfolding m by simp
    next
      case False
      define s where "s = (ucast (a ! i) :: u128) + ucast c"
      define a1 where "a1 = a[i := ucast s]"
      define c1 where "c1 = (ucast (drop_bit 64 s) :: u64)"
      have rec: "carry_loop a1 (i + 1) c1 ov = (a', ov')"
        using "1.prems"(3) c False
        by (subst (asm) carry_loop.simps) (simp add: Let_def s_def a1_def c1_def)
      have aw: "add_word_at a i 0 c ov = (a1, c1, ov)"
        using c False by (simp add: add_word_at_def Let_def s_def a1_def c1_def)
      from False have ilt: "i < ACC_LIMBS" by simp
      from add_word_at_correct [OF ilt "1.prems"(2) aw]
      have l1: "length a1 = ACC_LIMBS"
        and v1: "bigu_val a1 + unat c1 * 2 ^ (64 * (i + 1)) = bigu_val a + unat c * 2 ^ (64 * i)"
        by simp_all
      have i1: "i + 1 \<le> ACC_LIMBS" using ilt by simp
      have "length a' = ACC_LIMBS \<and>
            bigu_val a' = (bigu_val a1 + unat c1 * 2 ^ (64 * (i + 1))) mod acc_modulus \<and>
            (ov' \<longleftrightarrow> ov \<or> acc_modulus \<le> bigu_val a1 + unat c1 * 2 ^ (64 * (i + 1)))"
        using "1.IH" [OF c False refl] i1 l1 rec
        unfolding s_def a1_def c1_def by blast
      then show ?thesis
        unfolding v1 .
    qed
  qed
qed

lemma unat_or_disjoint:
  fixes a b :: u64
  assumes "a AND b = 0"
  shows "unat (a OR b) = unat a + unat b"
proof -
  have "unat a AND unat b = unat (a AND b)"
    by (simp add: unsigned_and_eq)
  with assms have "unat a AND unat b = 0" by simp
  then have "unat a + unat b = unat a OR unat b"
    by (rule disjunctive_add_eq_or)
  then show ?thesis by (simp add: unsigned_or_eq)
qed

lemma shift_split_nat:
  fixes X :: nat
  assumes "r \<le> 64"
  shows "(X * 2 ^ r) mod 2 ^ 64 + 2 ^ 64 * (X div 2 ^ (64 - r)) = X * 2 ^ r"
proof -
  have p: "(2::nat) ^ 64 = 2 ^ (64 - r) * 2 ^ r"
    using assms by (simp flip: power_add)
  have "(X * 2 ^ r) div 2 ^ 64 = X div 2 ^ (64 - r)"
    unfolding p by simp
  then have "2 ^ 64 * (X div 2 ^ (64 - r)) = 2 ^ 64 * ((X * 2 ^ r) div 2 ^ 64)"
    by simp
  then show ?thesis by (simp only: mod_mult_div_eq)
qed

lemma unat_push: "unat (push_bit r (w::u64)) = (unat w * 2 ^ r) mod 2 ^ 64"
  by (subst unsigned_push_bit_eq) (simp add: take_bit_eq_mod push_bit_eq_mult)

lemma unat_drop: "unat (drop_bit k (w::u64)) = unat w div 2 ^ k"
  by (subst unat_drop_bit_eq) (simp add: drop_bit_eq_div)

lemma push_drop_disjoint:
  fixes lo hi :: u64
  assumes "0 < r" "r < 64"
  shows "push_bit r hi AND drop_bit (64 - r) lo = 0"
proof (rule bit_word_eqI)
  fix n
  assume "n < LENGTH(64)"
  have "\<not> (bit (push_bit r hi) n \<and> bit (drop_bit (64 - r) lo) n)"
  proof
    assume h: "bit (push_bit r hi) n \<and> bit (drop_bit (64 - r) lo) n"
    then have "r \<le> n" by (simp add: bit_simps)
    moreover from h have "bit (drop_bit (64 - r) lo) n" by simp
    then have "bit lo (64 - r + n)" by (simp only: bit_drop_bit_eq o_def)
    then have "64 - r + n < 64" using bit_imp_le_length [of lo "64 - r + n"] by simp
    ultimately show False using assms by simp
  qed
  then show "bit (push_bit r hi AND drop_bit (64 - r) lo) n = bit (0::u64) n"
    by (simp add: bit_simps)
qed

lemma three_limb_span:
  fixes lo hi :: u64
  assumes "0 < r" "r < 64"
  shows "unat (push_bit r lo) + 2 ^ 64 * unat (push_bit r hi OR drop_bit (64 - r) lo)
         + 2 ^ 128 * unat (drop_bit (64 - r) hi)
       = (unat lo + 2 ^ 64 * unat hi) * 2 ^ r"
proof -
  have r: "r \<le> 64" using assms by simp
  have "unat (push_bit r hi OR drop_bit (64 - r) lo)
      = (unat hi * 2 ^ r) mod 2 ^ 64 + unat lo div 2 ^ (64 - r)"
    by (simp only: unat_or_disjoint [OF push_drop_disjoint [OF assms]] unat_push unat_drop)
  then have "unat (push_bit r lo) + 2 ^ 64 * unat (push_bit r hi OR drop_bit (64 - r) lo)
         + 2 ^ 128 * unat (drop_bit (64 - r) hi)
      = ((unat lo * 2 ^ r) mod 2 ^ 64 + 2 ^ 64 * (unat lo div 2 ^ (64 - r)))
        + 2 ^ 64 * ((unat hi * 2 ^ r) mod 2 ^ 64 + 2 ^ 64 * (unat hi div 2 ^ (64 - r)))"
    by (simp only: unat_push unat_drop) (simp add: algebra_simps)
  also have "\<dots> = unat lo * 2 ^ r + 2 ^ 64 * (unat hi * 2 ^ r)"
    by (simp only: shift_split_nat [OF r])
  finally show ?thesis by (simp add: algebra_simps)
qed

lemma split_u128: "unat (ucast (val::u128) :: u64) + 2 ^ 64 * unat (ucast (drop_bit 64 val) :: u64) = unat val"
  by (simp only: unat_high) (simp add: unat_down)

lemma bigu_add_correct:
  assumes len: "length a = ACC_LIMBS" and sh: "bit_shift \<le> 4095"
    and run: "bigu_add_shifted_u128 a val bit_shift ov = (a', ov')"
  shows "length a' = ACC_LIMBS \<and>
         bigu_val a' = (bigu_val a + unat val * 2 ^ bit_shift) mod acc_modulus \<and>
         (ov' \<longleftrightarrow> ov \<or> acc_modulus \<le> bigu_val a + unat val * 2 ^ bit_shift)"
proof (cases "val = 0")
  case True
  with run have "a' = a" "ov' = ov" by (simp_all add: bigu_add_shifted_u128_def)
  with True len bigu_val_bound [OF len] show ?thesis by simp
next
  case False
  define wo where "wo = bit_shift div 64"
  define r where "r = bit_shift mod 64"
  define lo where "lo = (ucast val :: u64)"
  define hi where "hi = (ucast (drop_bit 64 val) :: u64)"
  define v0 where "v0 = (if r = 0 then lo else push_bit r lo)"
  define v1 where "v1 = (if r = 0 then hi else push_bit r hi OR drop_bit (64 - r) lo)"
  define v2 where "v2 = (if r = 0 then 0 else drop_bit (64 - r) hi)"
  obtain a1 c1 o1 where s1: "add_word_at a wo v0 0 ov = (a1, c1, o1)"
    by (metis prod_cases3)
  obtain a2 c2 o2 where s2: "add_word_at a1 (wo + 1) v1 c1 o1 = (a2, c2, o2)"
    by (metis prod_cases3)
  obtain a3 c3 o3 where s3: "add_word_at a2 (wo + 2) v2 c2 o2 = (a3, c3, o3)"
    by (metis prod_cases3)
  have fin: "carry_loop a3 (wo + 3) c3 o3 = (a', ov')"
    using run False s1 s2 s3
    unfolding bigu_add_shifted_u128_def Let_def
      wo_def [symmetric] r_def [symmetric] lo_def [symmetric] hi_def [symmetric]
    by (auto simp: v0_def v1_def v2_def split: if_splits)
  have wo: "wo + 2 < ACC_LIMBS" using sh unfolding wo_def by simp
  have rlt: "r < 64" unfolding r_def by simp
  have span: "unat v0 + 2 ^ 64 * unat v1 + 2 ^ 128 * unat v2 = unat val * 2 ^ r"
  proof (cases "r = 0")
    case True
    then show ?thesis
      unfolding v0_def v1_def v2_def lo_def hi_def using split_u128 [of val] by simp
  next
    case False
    then have "0 < r" by simp
    from three_limb_span [OF this rlt, of lo hi] False show ?thesis
      unfolding v0_def v1_def v2_def lo_def hi_def using split_u128 [of val] by simp
  qed
  have pw: "(2::nat) ^ bit_shift = 2 ^ r * 2 ^ (64 * wo)"
    unfolding wo_def r_def by (simp flip: power_add)
  define P0 :: nat where "P0 = 2 ^ (64 * wo)"
  define P1 :: nat where "P1 = 2 ^ (64 * (wo + 1))"
  define P2 :: nat where "P2 = 2 ^ (64 * (wo + 2))"
  define P3 :: nat where "P3 = 2 ^ (64 * (wo + 3))"
  have p1: "P1 = 2 ^ 64 * P0" and p2: "P2 = 2 ^ 128 * P0"
    unfolding P0_def P1_def P2_def by (simp_all add: power_add)
  from add_word_at_correct [OF _ len s1] wo
  have l1: "length a1 = ACC_LIMBS" and f1: "o1 = ov"
    and e1: "bigu_val a1 + unat c1 * P1 = bigu_val a + unat v0 * P0"
    unfolding P0_def P1_def by simp_all
  have n2: "wo + 1 + 1 = wo + 2" and n3: "wo + 2 + 1 = wo + 3" by simp_all
  from add_word_at_correct [OF _ l1 s2, unfolded n2] wo
  have l2: "length a2 = ACC_LIMBS" and f2: "o2 = o1"
    and e2: "bigu_val a2 + unat c2 * P2 = bigu_val a1 + (unat v1 + unat c1) * P1"
    unfolding P1_def P2_def by simp_all
  from add_word_at_correct [OF _ l2 s3, unfolded n3] wo
  have l3: "length a3 = ACC_LIMBS" and f3: "o3 = o2"
    and e3: "bigu_val a3 + unat c3 * P3 = bigu_val a2 + (unat v2 + unat c2) * P2"
    unfolding P2_def P3_def by simp_all
  have "bigu_val a3 + unat c3 * P3 = bigu_val a + (unat v0 * P0 + unat v1 * P1 + unat v2 * P2)"
    using e1 e2 e3 unfolding add_mult_distrib by linarith
  also have "unat v0 * P0 + unat v1 * P1 + unat v2 * P2
      = (unat v0 + 2 ^ 64 * unat v1 + 2 ^ 128 * unat v2) * P0"
    unfolding p1 p2 by (simp only: add_mult_distrib add_mult_distrib2 mult.assoc mult.commute mult.left_commute)
  also have "\<dots> = unat val * 2 ^ bit_shift"
    unfolding span pw P0_def by (simp only: mult.assoc)
  finally have tot: "bigu_val a3 + unat c3 * 2 ^ (64 * (wo + 3)) = bigu_val a + unat val * 2 ^ bit_shift"
    unfolding P3_def .
  have "wo + 3 \<le> ACC_LIMBS" using wo by simp
  from carry_loop_correct [OF this l3 fin] show ?thesis
    unfolding tot f3 f2 f1 .
qed

section \<open>One loop iteration on the values of the accumulators\<close>

lemma finite_exp_field: "finite_u64 u \<longleftrightarrow> exp_field u \<noteq> 2047"
  unfolding finite_u64_def is_nan_iff is_inf_iff by auto

lemma implicit_bit_disjoint: "(push_bit 52 1 :: u64) AND (u AND (push_bit 52 1 - 1)) = 0"
  unfolding frac_mask
  by (rule bit_word_eqI) (auto simp add: bit_simps simp del: push_bit_of_1)

lemma unat_implicit_bit: "unat (push_bit 52 1 :: u64) = 2 ^ 52"
  by simp

lemma decode_significand:
  assumes "finite_u64 u"
  shows "\<exists>S E. decode_double_SE u = Some (sign_of_u64 u, S, E) \<and> unat S = significand u
           \<and> (significand u \<noteq> 0 \<longrightarrow> E = exponent u)"
proof -
  have ne: "exp_field u \<noteq> 2047" using assms by (simp add: finite_exp_field)
  have nrm: "unat (push_bit 52 1 OR (u AND (push_bit 52 1 - 1)) :: u64) = 2 ^ 52 + frac_field u"
    by (simp only: unat_or_disjoint [OF implicit_bit_disjoint] frac_unat frac_field_def unat_implicit_bit)
  have sub: "unat (u AND (push_bit 52 1 - 1)) = frac_field u"
    by (simp only: frac_unat frac_field_def)
  show ?thesis
    unfolding decode_fields significand_def exponent_def
    using ne nrm sub by auto
qed

lemma exponent_range: "exp_field u \<noteq> 2047 \<Longrightarrow> - 1074 \<le> exponent u \<and> exponent u \<le> 971"
  using exp_field_lt [of u] by (auto simp: exponent_def)

lemma unat_product:
  fixes Sx Sy :: u64
  shows "unat ((ucast Sx :: u128) * ucast Sy) = unat Sx * unat Sy"
proof -
  have x: "unat Sx < 2 ^ 64" using unsigned_less [of Sx] by simp
  have y: "unat Sy < 2 ^ 64" using unsigned_less [of Sy] by simp
  have "unat Sx * unat Sy < 2 ^ 64 * 2 ^ 64"
    using x y by (rule mult_strict_mono') simp_all
  then have "unat (ucast Sx :: u128) * unat (ucast Sy :: u128) < 2 ^ LENGTH(128)"
    by (simp add: unat_up)
  then show ?thesis
    by (simp only: unat_mult_lem [THEN iffD1] unat_up)
qed

lemma step_finite:
  assumes fa: "finite_u64 a" and fb: "finite_u64 b"
  shows "\<exists>W. unat W = significand a * significand b \<and>
          ddot_step a b st =
            (if significand a = 0 \<or> significand b = 0 then st
             else if sign_of_u64 a * sign_of_u64 b > 0 then
               (let (p, ov) = bigu_add_shifted_u128 (pos st) W
                                (nat (exponent a + exponent b - ACC_EMIN)) (overflow st)
                in st\<lparr>pos := p, overflow := ov\<rparr>)
             else
               (let (q, ov) = bigu_add_shifted_u128 (neg st) W
                                (nat (exponent a + exponent b - ACC_EMIN)) (overflow st)
                in st\<lparr>neg := q, overflow := ov\<rparr>))"
proof -
  from decode_significand [OF fa] obtain Sx E_x where
    dx: "decode_double_SE a = Some (sign_of_u64 a, Sx, E_x)" and sx: "unat Sx = significand a"
    and ex: "significand a \<noteq> 0 \<longrightarrow> E_x = exponent a" by blast
  from decode_significand [OF fb] obtain Sy E_y where
    dy: "decode_double_SE b = Some (sign_of_u64 b, Sy, E_y)" and sy: "unat Sy = significand b"
    and ey: "significand b \<noteq> 0 \<longrightarrow> E_y = exponent b" by blast
  have zx: "Sx = 0 \<longleftrightarrow> significand a = 0" using sx by (simp flip: unat_eq_0)
  have zy: "Sy = 0 \<longleftrightarrow> significand b = 0" using sy by (simp flip: unat_eq_0)
  have cls: "\<not> is_nan_u64 a" "\<not> is_nan_u64 b" "\<not> is_inf_u64 a" "\<not> is_inf_u64 b"
    using fa fb by (simp_all add: finite_u64_def)
  have rng: "\<not> exponent a + exponent b < ACC_EMIN"
    using exponent_range [of a] exponent_range [of b] fa fb
    by (simp add: finite_exp_field)
  let ?W = "(ucast Sx :: u128) * ucast Sy"
  have "unat ?W = significand a * significand b"
    by (simp only: unat_product sx sy)
  moreover have "ddot_step a b st =
            (if significand a = 0 \<or> significand b = 0 then st
             else if sign_of_u64 a * sign_of_u64 b > 0 then
               (let (p, ov) = bigu_add_shifted_u128 (pos st) ?W
                                (nat (exponent a + exponent b - ACC_EMIN)) (overflow st)
                in st\<lparr>pos := p, overflow := ov\<rparr>)
             else
               (let (q, ov) = bigu_add_shifted_u128 (neg st) ?W
                                (nat (exponent a + exponent b - ACC_EMIN)) (overflow st)
                in st\<lparr>neg := q, overflow := ov\<rparr>))"
  proof (cases "significand a = 0 \<or> significand b = 0")
    case True
    then show ?thesis
      unfolding ddot_step_def using cls dx dy zx zy by (simp add: Let_def)
  next
    case False
    with ex ey have e: "E_x = exponent a" "E_y = exponent b" by simp_all
    from False show ?thesis
      unfolding ddot_step_def using cls dx dy zx zy rng
      by (simp add: Let_def e)
  qed
  ultimately show ?thesis by blast
qed

lemma step_nonfinite:
  assumes "\<not> (finite_u64 a \<and> finite_u64 b)"
  shows "pos (ddot_step a b st) = pos st \<and> neg (ddot_step a b st) = neg st
         \<and> overflow (ddot_step a b st) = overflow st"
proof -
  have "is_nan_u64 a \<or> is_nan_u64 b \<or> is_inf_u64 a \<or> is_inf_u64 b"
    using assms by (auto simp: finite_u64_def)
  then show ?thesis
    unfolding ddot_step_def by (auto simp: Let_def)
qed

lemma step_abstract:
  fixes a b :: u64 and st :: ddot_state
  assumes lp: "length (pos st) = ACC_LIMBS" and ln: "length (neg st) = ACC_LIMBS"
  defines "st' \<equiv> ddot_step a b st"
  shows "length (pos st') = ACC_LIMBS \<and> length (neg st') = ACC_LIMBS \<and>
         bigu_val (pos st') = (bigu_val (pos st) + pos_units a b) mod acc_modulus \<and>
         bigu_val (neg st') = (bigu_val (neg st) + neg_units a b) mod acc_modulus \<and>
         (overflow st' \<longleftrightarrow> overflow st \<or> acc_modulus \<le> bigu_val (pos st) + pos_units a b
                           \<or> acc_modulus \<le> bigu_val (neg st) + neg_units a b)"
proof -
  note bp = bigu_val_bound [OF lp] and bn = bigu_val_bound [OF ln]
  show ?thesis
  proof (cases "finite_u64 a \<and> finite_u64 b")
    case False
    then have "pos_units a b = 0" "neg_units a b = 0"
      by (auto simp: pos_units_def neg_units_def)
    with step_nonfinite [OF False, of st] lp ln bp bn show ?thesis
      unfolding st'_def by simp
  next
    case True
    then have fa: "finite_u64 a" and fb: "finite_u64 b" by simp_all
    from step_finite [OF fa fb, of st] obtain W where
      w: "unat W = significand a * significand b" and
      eq: "st' =
            (if significand a = 0 \<or> significand b = 0 then st
             else if sign_of_u64 a * sign_of_u64 b > 0 then
               (let (p, ov) = bigu_add_shifted_u128 (pos st) W
                                (nat (exponent a + exponent b - ACC_EMIN)) (overflow st)
                in st\<lparr>pos := p, overflow := ov\<rparr>)
             else
               (let (q, ov) = bigu_add_shifted_u128 (neg st) W
                                (nat (exponent a + exponent b - ACC_EMIN)) (overflow st)
                in st\<lparr>neg := q, overflow := ov\<rparr>))"
      unfolding st'_def by blast
    let ?sh = "nat (exponent a + exponent b - ACC_EMIN)"
    have sh: "?sh \<le> 4095"
      using exponent_range [of a] exponent_range [of b] fa fb
      unfolding finite_exp_field by linarith
    have pu: "product_units a b = unat W * 2 ^ ?sh"
      by (simp add: product_units_def w)
    show ?thesis
    proof (cases "significand a = 0 \<or> significand b = 0")
      case z: True
      then have "product_units a b = 0" by (auto simp: product_units_def)
      then have "pos_units a b = 0" "neg_units a b = 0"
        by (simp_all add: pos_units_def neg_units_def)
      with eq z lp ln bp bn show ?thesis by simp
    next
      case nz: False
      show ?thesis
      proof (cases "sign_of_u64 a * sign_of_u64 b > 0")
        case s: True
        obtain p ov where run: "bigu_add_shifted_u128 (pos st) W ?sh (overflow st) = (p, ov)"
          by (metis surj_pair)
        from eq nz s run have st': "st' = st\<lparr>pos := p, overflow := ov\<rparr>" by simp
        have u: "pos_units a b = unat W * 2 ^ ?sh" "neg_units a b = 0"
          using True s pu by (simp_all add: pos_units_def neg_units_def)
        from bigu_add_correct [OF lp sh run] ln bn show ?thesis
          unfolding st' u by simp
      next
        case s: False
        obtain q ov where run: "bigu_add_shifted_u128 (neg st) W ?sh (overflow st) = (q, ov)"
          by (metis surj_pair)
        from eq nz s run have st': "st' = st\<lparr>neg := q, overflow := ov\<rparr>" by simp
        have u: "neg_units a b = unat W * 2 ^ ?sh" "pos_units a b = 0"
          using True s pu by (simp_all add: pos_units_def neg_units_def)
        from bigu_add_correct [OF ln sh run] lp bp show ?thesis
          unfolding st' u by simp
      qed
    qed
  qed
qed

lemma latch_step:
  fixes P u R M :: nat
  shows "(M \<le> P + u \<or> M \<le> (P + u) mod M + R) \<longleftrightarrow> M \<le> P + u + R"
proof (cases "M \<le> P + u")
  case True
  then show ?thesis by simp
next
  case False
  then have "(P + u) mod M = P + u" by simp
  with False show ?thesis by simp
qed

lemma fold_abstract:
  fixes x y :: "u64 list"
  assumes "length (pos st) = ACC_LIMBS" and "length (neg st) = ACC_LIMBS"
  shows "length (pos (fold (\<lambda>k. ddot_step (x ! k) (y ! k)) ks st)) = ACC_LIMBS \<and>
         length (neg (fold (\<lambda>k. ddot_step (x ! k) (y ! k)) ks st)) = ACC_LIMBS \<and>
         bigu_val (pos (fold (\<lambda>k. ddot_step (x ! k) (y ! k)) ks st))
           = (bigu_val (pos st) + sum_list (map (\<lambda>k. pos_units (x ! k) (y ! k)) ks)) mod acc_modulus \<and>
         bigu_val (neg (fold (\<lambda>k. ddot_step (x ! k) (y ! k)) ks st))
           = (bigu_val (neg st) + sum_list (map (\<lambda>k. neg_units (x ! k) (y ! k)) ks)) mod acc_modulus \<and>
         (overflow (fold (\<lambda>k. ddot_step (x ! k) (y ! k)) ks st) \<longleftrightarrow>
            overflow st
            \<or> acc_modulus \<le> bigu_val (pos st) + sum_list (map (\<lambda>k. pos_units (x ! k) (y ! k)) ks)
            \<or> acc_modulus \<le> bigu_val (neg st) + sum_list (map (\<lambda>k. neg_units (x ! k) (y ! k)) ks))"
  using assms
proof (induction ks arbitrary: st)
  case Nil
  then show ?case
    using bigu_val_bound [of "pos st"] bigu_val_bound [of "neg st"] by simp
next
  case (Cons k ks)
  let ?s1 = "ddot_step (x ! k) (y ! k) st"
  let ?u = "pos_units (x ! k) (y ! k)" and ?v = "neg_units (x ! k) (y ! k)"
  let ?R = "sum_list (map (\<lambda>k. pos_units (x ! k) (y ! k)) ks)"
  let ?T = "sum_list (map (\<lambda>k. neg_units (x ! k) (y ! k)) ks)"
  from step_abstract [OF Cons.prems, of "x ! k" "y ! k"]
  have l1: "length (pos ?s1) = ACC_LIMBS" "length (neg ?s1) = ACC_LIMBS"
    and p1: "bigu_val (pos ?s1) = (bigu_val (pos st) + ?u) mod acc_modulus"
    and n1: "bigu_val (neg ?s1) = (bigu_val (neg st) + ?v) mod acc_modulus"
    and o1: "overflow ?s1 \<longleftrightarrow> overflow st \<or> acc_modulus \<le> bigu_val (pos st) + ?u
                           \<or> acc_modulus \<le> bigu_val (neg st) + ?v"
    by simp_all
  note IH = Cons.IH [OF l1]
  have a: "((bigu_val (pos st) + ?u) mod acc_modulus + ?R) mod acc_modulus
         = (bigu_val (pos st) + (?u + ?R)) mod acc_modulus"
    by (simp add: mod_add_left_eq add.assoc)
  have b: "((bigu_val (neg st) + ?v) mod acc_modulus + ?T) mod acc_modulus
         = (bigu_val (neg st) + (?v + ?T)) mod acc_modulus"
    by (simp add: mod_add_left_eq add.assoc)
  have c: "(acc_modulus \<le> bigu_val (pos st) + ?u
            \<or> acc_modulus \<le> (bigu_val (pos st) + ?u) mod acc_modulus + ?R)
        \<longleftrightarrow> acc_modulus \<le> bigu_val (pos st) + (?u + ?R)"
    using latch_step [of acc_modulus "bigu_val (pos st)" ?u ?R] by (simp add: add.assoc)
  have d: "(acc_modulus \<le> bigu_val (neg st) + ?v
            \<or> acc_modulus \<le> (bigu_val (neg st) + ?v) mod acc_modulus + ?T)
        \<longleftrightarrow> acc_modulus \<le> bigu_val (neg st) + (?v + ?T)"
    using latch_step [of acc_modulus "bigu_val (neg st)" ?v ?T] by (simp add: add.assoc)
  show ?case
    using IH unfolding p1 n1 o1 a b
    using c d by auto
qed

lemma sum_list_upt: "sum_list (map f [0..<n]) = (\<Sum>k<n. f k)"
  by (simp add: sum_list_map_eq_sum_count atLeast0LessThan interv_sum_list_conv_sum_set_nat)

lemma loop_abstract:
  fixes x y :: "u64 list"
  shows "length (pos (ddot_loop x y n 0 ddot_init)) = ACC_LIMBS \<and>
         length (neg (ddot_loop x y n 0 ddot_init)) = ACC_LIMBS \<and>
         bigu_val (pos (ddot_loop x y n 0 ddot_init))
           = (\<Sum>k<n. pos_units (x ! k) (y ! k)) mod acc_modulus \<and>
         bigu_val (neg (ddot_loop x y n 0 ddot_init))
           = (\<Sum>k<n. neg_units (x ! k) (y ! k)) mod acc_modulus \<and>
         (overflow (ddot_loop x y n 0 ddot_init) \<longleftrightarrow>
            acc_modulus \<le> (\<Sum>k<n. pos_units (x ! k) (y ! k))
            \<or> acc_modulus \<le> (\<Sum>k<n. neg_units (x ! k) (y ! k)))"
  using fold_abstract [of ddot_init x y "[0..<n]"]
  unfolding ddot_loop_fold sum_list_upt by simp

section \<open>The result as a function of sums and flags\<close>

lemma ddot_finish_cong:
  assumes "pos s = pos t" "neg s = neg t" "overflow s = overflow t" "saw_nan s = saw_nan t"
    "saw_invalid_zero_inf s = saw_invalid_zero_inf t" "saw_pos_inf s = saw_pos_inf t"
    "saw_neg_inf s = saw_neg_inf t"
  shows "ddot_finish s = ddot_finish t"
  using assms by (simp add: ddot_finish_def)

lemma perm_ex:
  assumes "bij_betw p {..<n::nat} {..<n}"
  shows "(\<exists>k<n. Q (p k)) \<longleftrightarrow> (\<exists>k<n. Q k)"
proof
  assume "\<exists>k<n. Q (p k)"
  then obtain k where "k < n" "Q (p k)" by blast
  moreover from assms \<open>k < n\<close> have "p k < n"
    using bij_betwE [OF assms] by auto
  ultimately show "\<exists>k<n. Q k" by blast
next
  assume "\<exists>k<n. Q k"
  then obtain k where k: "k < n" "Q k" by blast
  from assms k(1) obtain j where "j < n" "p j = k"
    unfolding bij_betw_def by (metis imageE lessThan_iff)
  with k show "\<exists>k<n. Q (p k)" by blast
qed

lemma perm_sum:
  assumes "bij_betw p {..<n::nat} {..<n}"
  shows "(\<Sum>k<n. f (p k)) = (\<Sum>k<n. (f k :: nat))"
  by (rule sum.reindex_bij_betw [OF assms])

lemma loop_cong:
  fixes x y x' y' :: "u64 list"
  assumes sp: "(\<Sum>k<m. pos_units (x' ! k) (y' ! k)) = (\<Sum>k<n. pos_units (x ! k) (y ! k))"
    and sn: "(\<Sum>k<m. neg_units (x' ! k) (y' ! k)) = (\<Sum>k<n. neg_units (x ! k) (y ! k))"
    and f1: "saw_nan (ddot_loop x' y' m 0 ddot_init) = saw_nan (ddot_loop x y n 0 ddot_init)"
    and f2: "saw_invalid_zero_inf (ddot_loop x' y' m 0 ddot_init) = saw_invalid_zero_inf (ddot_loop x y n 0 ddot_init)"
    and f3: "saw_pos_inf (ddot_loop x' y' m 0 ddot_init) = saw_pos_inf (ddot_loop x y n 0 ddot_init)"
    and f4: "saw_neg_inf (ddot_loop x' y' m 0 ddot_init) = saw_neg_inf (ddot_loop x y n 0 ddot_init)"
  shows "ddot_repro x' y' m = ddot_repro x y n"
proof -
  let ?s = "ddot_loop x' y' m 0 ddot_init" and ?t = "ddot_loop x y n 0 ddot_init"
  note A = loop_abstract [of x' y' m] and B = loop_abstract [of x y n]
  have "bigu_val (pos ?s) = bigu_val (pos ?t)" using A B sp by simp
  moreover have "length (pos ?s) = length (pos ?t)" using A B by simp
  ultimately have p: "pos ?s = pos ?t" by (rule bigu_val_inj [rotated])
  have "bigu_val (neg ?s) = bigu_val (neg ?t)" using A B sn by simp
  moreover have "length (neg ?s) = length (neg ?t)" using A B by simp
  ultimately have q: "neg ?s = neg ?t" by (rule bigu_val_inj [rotated])
  have o: "overflow ?s = overflow ?t" using A B sp sn by simp
  show ?thesis
    unfolding ddot_repro_def by (rule ddot_finish_cong [OF p q o f1 f2 f3 f4])
qed

lemma bigu_val_all_ones: "bigu_val (replicate n (- 1)) + 1 = 2 ^ (64 * n)"
proof (induction n)
  case 0
  then show ?case by simp
next
  case (Suc n)
  have "unat (- 1 :: u64) = 2 ^ 64 - 1" by (simp add: unsigned_minus_1_eq_mask mask_eq_exp_minus_1)
  with Suc show ?case by (simp add: power_add algebra_simps)
qed
lemma v: "bigu_val (replicate ACC_LIMBS (- 1)) + 1 = acc_modulus"
  unfolding acc_modulus_def by (rule bigu_val_all_ones)

section \<open>Comparison of accumulators\<close>

lemma bigu_val_take_Suc:
  "i < length a \<Longrightarrow> bigu_val (take (Suc i) a) = bigu_val (take i a) + 2 ^ (64 * i) * unat (a ! i)"
  by (simp add: take_Suc_conv_app_nth bigu_val_append)

lemma bigu_val_take_lt: "i \<le> length a \<Longrightarrow> bigu_val (take i a) < 2 ^ (64 * i)"
  using bigu_val_lt [of "take i a"] by simp

lemma bigu_cmp_loop_val:
  assumes "k \<le> length a" and "k \<le> length b"
  shows "bigu_cmp_loop k a b =
           (if bigu_val (take k a) < bigu_val (take k b) then - 1
            else if bigu_val (take k a) > bigu_val (take k b) then 1 else 0)"
  using assms
proof (induction k)
  case 0
  then show ?case by simp
next
  case (Suc i)
  then have ia: "i < length a" and ib: "i < length b" by simp_all
  let ?A = "bigu_val (take i a)" and ?B = "bigu_val (take i b)"
  let ?P = "(2::nat) ^ (64 * i)"
  have la: "?A < ?P" using ia by (intro bigu_val_take_lt) simp
  have lb: "?B < ?P" using ib by (intro bigu_val_take_lt) simp
  have va: "bigu_val (take (Suc i) a) = ?A + ?P * unat (a ! i)" by (rule bigu_val_take_Suc [OF ia])
  have vb: "bigu_val (take (Suc i) b) = ?B + ?P * unat (b ! i)" by (rule bigu_val_take_Suc [OF ib])
  have IH: "bigu_cmp_loop i a b = (if ?A < ?B then - 1 else if ?A > ?B then 1 else 0)"
    using Suc by simp
  consider (lt) "unat (a ! i) < unat (b ! i)" | (gt) "unat (a ! i) > unat (b ! i)"
    | (eq) "unat (a ! i) = unat (b ! i)" by linarith
  then show ?case
  proof cases
    case lt
    then have "unat (a ! i) + 1 \<le> unat (b ! i)" by simp
    then have "?P * (unat (a ! i) + 1) \<le> ?P * unat (b ! i)" by (rule mult_le_mono2)
    with la have "?A + ?P * unat (a ! i) < ?B + ?P * unat (b ! i)" by simp
    with lt show ?thesis unfolding va vb by (simp add: word_less_nat_alt)
  next
    case gt
    then have "unat (b ! i) + 1 \<le> unat (a ! i)" by simp
    then have "?P * (unat (b ! i) + 1) \<le> ?P * unat (a ! i)" by (rule mult_le_mono2)
    with lb have "?B + ?P * unat (b ! i) < ?A + ?P * unat (a ! i)" by simp
    with gt show ?thesis unfolding va vb by (simp add: word_less_nat_alt)
  next
    case eq
    then have "a ! i = b ! i" by (simp add: word_unat_eq_iff)
    with eq IH show ?thesis unfolding va vb by simp
  qed
qed

lemma bigu_cmp_val:
  assumes "length a = ACC_LIMBS" and "length b = ACC_LIMBS"
  shows "bigu_cmp a b =
           (if bigu_val a < bigu_val b then - 1 else if bigu_val a > bigu_val b then 1 else 0)"
  using bigu_cmp_loop_val [of ACC_LIMBS a b] assms by (simp add: bigu_cmp_def)

section \<open>An input that overflows the accumulator\<close>

text \<open>The largest finite double, \<open>(2 ^ 53 - 1) \<cdot> 2 ^ 971\<close>.\<close>

lemma max_double_fields:
  "finite_u64 0x7FEFFFFFFFFFFFFF" "significand 0x7FEFFFFFFFFFFFFF = 9007199254740991"
  "exponent 0x7FEFFFFFFFFFFFFF = 971" "sign_of_u64 0x7FEFFFFFFFFFFFFF = 1"
  by (simp_all add: finite_exp_field significand_def exponent_def exp_field_def frac_field_def
      sign_of_u64_def)

lemma max_double_units:
  "pos_units 0x7FEFFFFFFFFFFFFF 0x7FEFFFFFFFFFFFFF = 81129638414606663681390495662081 * 2 ^ 4090"
  "neg_units 0x7FEFFFFFFFFFFFFF 0x7FEFFFFFFFFFFFFF = 0"
proof -
  have e: "nat (exponent 0x7FEFFFFFFFFFFFFF + exponent 0x7FEFFFFFFFFFFFFF - ACC_EMIN) = 4090"
    unfolding max_double_fields by simp
  have s: "significand 0x7FEFFFFFFFFFFFFF * significand 0x7FEFFFFFFFFFFFFF
             = 81129638414606663681390495662081"
    unfolding max_double_fields by simp
  have "product_units 0x7FEFFFFFFFFFFFFF 0x7FEFFFFFFFFFFFFF
          = 81129638414606663681390495662081 * 2 ^ 4090"
    unfolding product_units_def e s ..
  then show "pos_units 0x7FEFFFFFFFFFFFFF 0x7FEFFFFFFFFFFFFF = 81129638414606663681390495662081 * 2 ^ 4090"
    using max_double_fields(1,4) by (simp only: pos_units_def) simp
  show "neg_units 0x7FEFFFFFFFFFFFFF 0x7FEFFFFFFFFFFFFF = 0"
    using max_double_fields(1,4) by (simp only: neg_units_def) simp
qed

lemma acc_modulus_split: "acc_modulus = 21778071482940061661655974875633165533184 * 2 ^ 4090"
proof -
  have "acc_modulus = 2 ^ (134 + 4090)" by (simp add: acc_modulus_def)
  also have "\<dots> = 2 ^ 134 * 2 ^ 4090" by (rule power_add)
  finally show ?thesis by simp
qed

lemma replicate_sums:
  fixes a b :: u64
  shows "(\<Sum>k<n. f (replicate n a ! k) (replicate n b ! k)) = n * (f a b :: nat)"
proof -
  have "(\<Sum>k<n. f (replicate n a ! k) (replicate n b ! k)) = (\<Sum>k<n. f a b)"
    by (rule sum.cong) simp_all
  then show ?thesis by simp
qed

lemma overflowing_input:
  fixes n :: nat
  assumes "268435457 \<le> n" and "n < 2 ^ 64"
  defines "x \<equiv> replicate n (0x7FEFFFFFFFFFFFFF :: u64)"
  shows "overflow (ddot_loop x x n 0 ddot_init)"
    and "bigu_val (neg (ddot_loop x x n 0 ddot_init)) = 0"
    and "bigu_val (pos (ddot_loop x x n 0 ddot_init))
           = (n * 81129638414606663681390495662081 mod 21778071482940061661655974875633165533184) * 2 ^ 4090"
proof -
  define K :: nat where "K = 2 ^ 4090"
  have K: "0 < K" by (simp add: K_def)
  let ?c = "81129638414606663681390495662081 :: nat"
  let ?d = "21778071482940061661655974875633165533184 :: nat"
  have sp: "(\<Sum>k<n. pos_units (x ! k) (x ! k)) = n * (?c * K)"
    unfolding x_def replicate_sums max_double_units K_def ..
  have sn: "(\<Sum>k<n. neg_units (x ! k) (x ! k)) = 0"
    unfolding x_def replicate_sums max_double_units by simp
  have M: "acc_modulus = ?d * K"
    unfolding K_def by (rule acc_modulus_split)
  have "?d \<le> 268435457 * ?c" by simp
  also have "\<dots> \<le> n * ?c" using assms(1) by (rule mult_le_mono1)
  finally have "?d * K \<le> (n * ?c) * K" by (rule mult_le_mono1)
  then have ge: "acc_modulus \<le> n * (?c * K)" unfolding M by (simp only: mult.assoc)
  note A = loop_abstract [of x x n, unfolded sp sn]
  from A ge show "overflow (ddot_loop x x n 0 ddot_init)" by blast
  from A show "bigu_val (neg (ddot_loop x x n 0 ddot_init)) = 0" by simp
  have "n * (?c * K) mod (?d * K) = (n * ?c mod ?d) * K"
    by (simp only: mult.assoc [symmetric] mult_mod_left)
  moreover from A have "bigu_val (pos (ddot_loop x x n 0 ddot_init)) = n * (?c * K) mod (?d * K)"
    unfolding M by blast
  ultimately have "bigu_val (pos (ddot_loop x x n 0 ddot_init)) = (n * ?c mod ?d) * K"
    by (simp only:)
  then show "bigu_val (pos (ddot_loop x x n 0 ddot_init)) = (n * ?c mod ?d) * 2 ^ 4090"
    unfolding K_def .
qed

section \<open>Negating the operands\<close>

lemma unat_set_top:
  fixes w :: u64
  assumes "\<not> bit w 63"
  shows "unat (w XOR push_bit 63 1) = unat w + 2 ^ 63"
proof -
  have d: "w AND push_bit 63 1 = 0"
  proof (rule bit_word_eqI)
    fix n
    assume "n < LENGTH(64)"
    then have "63 \<le> n \<Longrightarrow> n = 63" by simp
    with assms show "bit (w AND push_bit 63 1) n = bit (0::u64) n"
      by (auto simp add: bit_simps simp del: push_bit_of_1)
  qed
  then have "w XOR push_bit 63 1 = w OR push_bit 63 1"
    by (rule disjunctive_xor_eq_or)
  then show ?thesis
    using unat_or_disjoint [OF d] by simp
qed

lemma unat_negate:
  "unat (negate_u64 u) = (if unat u < 2 ^ 63 then unat u + 2 ^ 63 else unat u - 2 ^ 63)"
proof (cases "bit u 63")
  case False
  have "unat (u XOR push_bit 63 1) < 2 ^ 64"
    using unsigned_less [of "u XOR push_bit 63 1"] by simp
  with unat_set_top [OF False] show ?thesis
    by (simp add: negate_u64_def)
next
  case True
  let ?v = "u XOR push_bit 63 1"
  have "\<not> bit ?v 63" using True by (simp add: bit_simps del: push_bit_of_1)
  from unat_set_top [OF this] have "unat u = unat ?v + 2 ^ 63"
    by (simp add: xor.assoc)
  then show ?thesis by (simp add: negate_u64_def)
qed

lemma negate_fields [simp]:
  "exp_field (negate_u64 u) = exp_field u" "frac_field (negate_u64 u) = frac_field u"
proof -
  have m: "unat (negate_u64 u) mod 2 ^ 63 = unat u mod 2 ^ 63"
  proof (cases "unat u < 2 ^ 63")
    case True
    then show ?thesis by (simp add: unat_negate)
  next
    case False
    then have "unat u = (unat u - 2 ^ 63) + 2 ^ 63" by simp
    then have "unat u mod 2 ^ 63 = (unat u - 2 ^ 63) mod 2 ^ 63"
      by (metis mod_add_self2)
    with False show ?thesis by (simp add: unat_negate)
  qed
  have e: "exp_field w = unat w mod 2 ^ 63 div 2 ^ 52" for w :: u64
  proof -
    have "unat w mod 2 ^ 63 div 2 ^ 52 = unat w mod (2 ^ 52 * 2 ^ 11) div 2 ^ 52" by simp
    also have "\<dots> = unat w div 2 ^ 52 mod 2 ^ 11"
      by (simp only: mod_mult2_eq) simp
    finally show ?thesis by (simp add: exp_field_def)
  qed
  have f: "frac_field w = unat w mod 2 ^ 63 mod 2 ^ 52" for w :: u64
  proof -
    have "unat w mod 2 ^ 63 mod 2 ^ 52 = unat w mod 2 ^ 52"
      by (rule mod_mod_cancel) simp
    then show ?thesis by (simp add: frac_field_def)
  qed
  show "exp_field (negate_u64 u) = exp_field u" unfolding e m ..
  show "frac_field (negate_u64 u) = frac_field u" unfolding f m ..
qed

lemma negate_sign [simp]: "sign_of_u64 (negate_u64 u) = - sign_of_u64 u"
proof -
  have "unat u < 2 ^ 64" using unsigned_less [of u] by simp
  then show ?thesis
    unfolding sign_of_u64_def sign_unat unat_negate by auto
qed

lemma negate_classes [simp]:
  "is_nan_u64 (negate_u64 u) = is_nan_u64 u" "is_inf_u64 (negate_u64 u) = is_inf_u64 u"
  "is_zero_u64 (negate_u64 u) = is_zero_u64 u" "finite_u64 (negate_u64 u) = finite_u64 u"
  "significand (negate_u64 u) = significand u" "exponent (negate_u64 u) = exponent u"
  by (simp_all add: is_nan_iff is_inf_iff is_zero_fields finite_exp_field significand_def exponent_def)

lemma negate_units:
  "pos_units (negate_u64 a) b = neg_units a b" "neg_units (negate_u64 a) b = pos_units a b"
  "pos_units a (negate_u64 b) = neg_units a b" "neg_units a (negate_u64 b) = pos_units a b"
  using sign_of_u64_cases [of a] sign_of_u64_cases [of b]
  by (auto simp: pos_units_def neg_units_def product_units_def)

lemma negate_zero_times_inf [simp]:
  "zero_times_inf (negate_u64 a) b = zero_times_inf a b"
  "zero_times_inf a (negate_u64 b) = zero_times_inf a b"
  by (simp_all add: zero_times_inf_def)

lemma negate_inf_product [simp]:
  "inf_product (negate_u64 a) b = inf_product a b"
  "inf_product a (negate_u64 b) = inf_product a b"
  by (simp_all add: inf_product_def)

section \<open>One limb of the subtraction\<close>

lemma wrap_sub:
  fixes X Y B :: nat
  assumes "X < Y" and "Y < B"
  shows "(X + B * B - Y) mod B = X + B - Y" and "(X + B * B - Y) div B = B - 1"
proof -
  have bb: "B * B = B + (B - 1) * B"
    using assms by (cases B) simp_all
  have eq: "X + B * B - Y = (X + B - Y) + (B - 1) * B"
    unfolding bb using assms by simp
  have lt: "X + B - Y < B" using assms by simp
  show "(X + B * B - Y) mod B = X + B - Y"
    unfolding eq using lt by simp
  show "(X + B * B - Y) div B = B - 1"
    unfolding eq using lt by simp
qed

lemma sub_wide:
  fixes x y :: u64
  shows "unat ((ucast x :: u128) - ucast y)
           = (if unat y \<le> unat x then unat x - unat y else unat x + 2 ^ 64 * 2 ^ 64 - unat y)"
  by (simp add: unat_sub_if_size unat_up word_size)

lemma sub_low:
  fixes x y :: u64
  shows "unat (ucast ((ucast x :: u128) - ucast y) :: u64)
           = (if unat y \<le> unat x then unat x - unat y else unat x + 2 ^ 64 - unat y)"
proof -
  have lx: "unat x < 2 ^ 64" using unsigned_less [of x] by simp
  have ly: "unat y < 2 ^ 64" using unsigned_less [of y] by simp
  show ?thesis
  proof (cases "unat y \<le> unat x")
    case True
    then have "unat x - unat y < 2 ^ 64" using lx by simp
    with True show ?thesis
      unfolding unat_down sub_wide by simp
  next
    case False
    then have "unat x < unat y" by simp
    from wrap_sub(1) [OF this ly] False show ?thesis
      unfolding unat_down sub_wide by simp
  qed
qed

lemma sub_borrow_bit:
  fixes x y :: u64
  shows "unat (ucast (drop_bit 64 ((ucast x :: u128) - ucast y) AND 1) :: u64)
           = (if unat y \<le> unat x then 0 else 1)"
proof -
  let ?d = "(ucast x :: u128) - ucast y"
  have lx: "unat x < 2 ^ 64" using unsigned_less [of x] by simp
  have ly: "unat y < 2 ^ 64" using unsigned_less [of y] by simp
  have "drop_bit 64 ?d AND 1 = drop_bit 64 ?d mod 2"
    by (rule and_one_eq)
  then have "unat (drop_bit 64 ?d AND 1) = unat (drop_bit 64 ?d) mod 2"
    by (simp add: unat_mod)
  also have "unat (drop_bit 64 ?d) = unat ?d div 2 ^ 64"
    by (subst unat_drop_bit_eq) (simp add: drop_bit_eq_div)
  finally have a: "unat (drop_bit 64 ?d AND 1) = unat ?d div 2 ^ 64 mod 2" .
  have b: "unat ?d div 2 ^ 64 mod 2 = (if unat y \<le> unat x then 0 else 1)"
  proof (cases "unat y \<le> unat x")
    case True
    then have "unat x - unat y < 2 ^ 64" using lx by simp
    then have "(unat x - unat y) div 2 ^ 64 = 0" by simp
    with True show ?thesis unfolding sub_wide by simp
  next
    case False
    then have "unat x < unat y" by simp
    from wrap_sub(2) [OF this ly] have "(unat x + 2 ^ 64 * 2 ^ 64 - unat y) div 2 ^ 64 = 2 ^ 64 - 1" .
    then have "(unat x + 2 ^ 64 * 2 ^ 64 - unat y) div 2 ^ 64 mod 2 = 1"
      by simp
    with False show ?thesis unfolding sub_wide by simp
  qed
  have "unat (ucast (drop_bit 64 ?d AND 1) :: u64) = unat (drop_bit 64 ?d AND 1) mod 2 ^ 64"
    by (rule unat_down)
  also have "\<dots> = (if unat y \<le> unat x then 0 else 1)"
    unfolding a b by simp
  finally show ?thesis .
qed

section \<open>The limbs that the subtraction writes\<close>

lemma sub_loop_nth:
  assumes "length c = ACC_LIMBS" and "i \<le> ACC_LIMBS" and "bw = sub_borrow a b i"
  shows "length (bigu_sub_loop a b c i bw) = ACC_LIMBS \<and>
         (\<forall>j<ACC_LIMBS. bigu_sub_loop a b c i bw ! j = (if j < i then c ! j else sub_limb a b j))"
  using assms
proof (induction a b c i bw rule: bigu_sub_loop.induct)
  case (1 a b c i bw)
  show ?case
  proof (cases "i < ACC_LIMBS")
    case False
    with "1.prems" show ?thesis
      by (subst bigu_sub_loop.simps, subst bigu_sub_loop.simps) simp
  next
    case True
    let ?c = "c[i := sub_limb a b i]"
    have step: "bigu_sub_loop a b c i bw = bigu_sub_loop a b ?c (i + 1) (sub_borrow a b (Suc i))"
      using True "1.prems"(3)
      by (subst bigu_sub_loop.simps) (simp add: Let_def sub_limb_def)
    have "length (bigu_sub_loop a b ?c (i + 1) (sub_borrow a b (Suc i))) = ACC_LIMBS \<and>
          (\<forall>j<ACC_LIMBS. bigu_sub_loop a b ?c (i + 1) (sub_borrow a b (Suc i)) ! j
              = (if j < i + 1 then ?c ! j else sub_limb a b j))"
      using "1.IH" [OF True refl refl refl] True "1.prems"
      by (simp add: Let_def sub_limb_def)
    then show ?thesis
      unfolding step using "1.prems"(1) True
      by (auto simp: nth_list_update less_Suc_eq)
  qed
qed

lemma bigu_sub_nth:
  "length (bigu_sub a b bigu_clear) = ACC_LIMBS \<and>
   (\<forall>j<ACC_LIMBS. bigu_sub a b bigu_clear ! j = sub_limb a b j)"
  using sub_loop_nth [of bigu_clear 0 "0" a b] by (simp add: bigu_sub_def)

lemma sub_borrow_le: "unat (sub_borrow a b i) \<le> 1"
  by (cases i) (simp_all add: sub_borrow_bit)

section \<open>The most significant bit\<close>

lemma highest_bit_spec:
  assumes "\<exists>j\<le>k. bit w j"
  shows "0 \<le> highest_bit w k \<and> nat (highest_bit w k) \<le> k \<and> bit w (nat (highest_bit w k)) \<and>
         (\<forall>j. nat (highest_bit w k) < j \<and> j \<le> k \<longrightarrow> \<not> bit w j)"
  using assms
proof (induction k)
  case 0
  then show ?case by auto
next
  case (Suc k)
  show ?case
  proof (cases "bit w (Suc k)")
    case True
    then show ?thesis by (auto simp del: of_nat_Suc)
  next
    case False
    with Suc.prems have "\<exists>j\<le>k. bit w j"
      by (metis le_SucE)
    from Suc.IH [OF this] False show ?thesis
      by (auto simp: le_Suc_eq simp del: of_nat_Suc)
  qed
qed

lemma word_nonzero_bit:
  fixes w :: u64
  assumes "w \<noteq> 0"
  shows "\<exists>j\<le>63. bit w j"
proof -
  from assms obtain j where "bit w j"
    by (auto simp: bit_eq_iff)
  moreover then have "j < 64" using bit_imp_le_length [of w j] by simp
  ultimately show ?thesis by (intro exI [of _ j]) simp
qed

lemma highest_bit_nonzero:
  fixes w :: u64
  assumes "w \<noteq> 0"
  shows "0 \<le> highest_bit w 63 \<and> highest_bit w 63 \<le> 63 \<and> bit w (nat (highest_bit w 63)) \<and>
         (\<forall>j. nat (highest_bit w 63) < j \<longrightarrow> \<not> bit w j)"
proof -
  from highest_bit_spec [OF word_nonzero_bit [OF assms]]
  have h: "0 \<le> highest_bit w 63" "nat (highest_bit w 63) \<le> 63" "bit w (nat (highest_bit w 63))"
    "\<And>j. nat (highest_bit w 63) < j \<Longrightarrow> j \<le> 63 \<Longrightarrow> \<not> bit w j"
    by blast+
  have "\<not> bit w j" if "nat (highest_bit w 63) < j" for j
  proof (cases "j \<le> 63")
    case True
    with h(4) that show ?thesis by blast
  next
    case False
    then show ?thesis using bit_imp_le_length [of w j] by auto
  qed
  with h show ?thesis by auto
qed

lemma msb_loop_nonneg:
  assumes "\<exists>j<n. a ! j \<noteq> 0"
  shows "0 \<le> bigu_msb_loop n a"
  using assms
proof (induction n)
  case 0
  then show ?case by simp
next
  case (Suc n)
  show ?case
  proof (cases "a ! n = 0")
    case True
    with Suc.prems have "\<exists>j<n. a ! j \<noteq> 0"
      by (metis less_SucE)
    from Suc.IH [OF this] True show ?thesis by simp
  next
    case False
    with highest_bit_nonzero [OF False] show ?thesis by (simp add: Let_def)
  qed
qed

section \<open>The difference of two distinct accumulators is not zero\<close>

lemma cmp_loop_top:
  assumes "bigu_cmp_loop n a b = 1"
  shows "\<exists>k<n. b ! k < a ! k \<and> (\<forall>j. k < j \<and> j < n \<longrightarrow> a ! j = b ! j)"
  using assms
proof (induction n)
  case 0
  then show ?case by simp
next
  case (Suc n)
  show ?case
  proof (cases "a ! n = b ! n")
    case True
    with Suc.prems have "bigu_cmp_loop n a b = 1" by simp
    from Suc.IH [OF this] obtain k where "k < n" "b ! k < a ! k" "\<forall>j. k < j \<and> j < n \<longrightarrow> a ! j = b ! j"
      by blast
    with True show ?thesis
      by (intro exI [of _ k]) (auto simp: less_Suc_eq)
  next
    case False
    with Suc.prems have "b ! n < a ! n"
      by (auto split: if_splits)
    then show ?thesis by (intro exI [of _ n]) auto
  qed
qed

lemma sub_limb_unat:
  "unat (sub_limb a b i) =
     (let y = unat (b ! i + sub_borrow a b i)
      in if y \<le> unat (a ! i) then unat (a ! i) - y else unat (a ! i) + 2 ^ 64 - y)"
  by (simp add: sub_limb_def sub_low Let_def)

lemma sub_borrow_Suc:
  "unat (sub_borrow a b (Suc i))
     = (if unat (b ! i + sub_borrow a b i) \<le> unat (a ! i) then 0 else 1)"
  by (simp add: sub_borrow_bit)

lemma sub_nonzero:
  assumes "k < ACC_LIMBS" and "b ! k < a ! k"
  shows "\<exists>j<ACC_LIMBS. sub_limb a b j \<noteq> 0"
proof (cases "sub_borrow a b k = 0")
  case True
  from assms(2) have "unat (b ! k) < unat (a ! k)" by (simp add: word_less_nat_alt)
  then have "unat (sub_limb a b k) \<noteq> 0"
    unfolding sub_limb_unat True by (simp add: Let_def)
  then have "sub_limb a b k \<noteq> 0" by (simp add: unat_eq_0)
  with assms(1) show ?thesis by blast
next
  case False
  then obtain i where k: "k = Suc i" by (cases k) auto
  let ?y = "unat (b ! i + sub_borrow a b i)"
  have "unat (sub_borrow a b (Suc i)) \<noteq> 0"
    using False unfolding k by (simp add: unat_eq_0)
  then have gt: "\<not> ?y \<le> unat (a ! i)"
    unfolding sub_borrow_Suc by (simp split: if_splits)
  have "?y < 2 ^ 64" using unsigned_less [of "b ! i + sub_borrow a b i"] by simp
  with gt have "unat (sub_limb a b i) \<noteq> 0"
    unfolding sub_limb_unat by (simp add: Let_def)
  then have "sub_limb a b i \<noteq> 0" by (simp add: unat_eq_0)
  moreover have "i < ACC_LIMBS" using assms(1) k by simp
  ultimately show ?thesis by blast
qed

lemma sub_msb_nonneg:
  assumes "bigu_cmp a b = 1"
  shows "0 \<le> bigu_msb_index (bigu_sub a b bigu_clear)"
proof -
  from cmp_loop_top [OF assms [unfolded bigu_cmp_def]]
  obtain k where "k < ACC_LIMBS" "b ! k < a ! k" by blast
  from sub_nonzero [OF this] obtain j where "j < ACC_LIMBS" "sub_limb a b j \<noteq> 0" by blast
  with bigu_sub_nth [of a b] have "\<exists>j<ACC_LIMBS. bigu_sub a b bigu_clear ! j \<noteq> 0"
    by auto
  then show ?thesis
    unfolding bigu_msb_index_def by (rule msb_loop_nonneg)
qed

lemma bigu_cmp_range: "bigu_cmp a b = - 1 \<or> bigu_cmp a b = 0 \<or> bigu_cmp a b = 1"
proof -
  have "bigu_cmp_loop n a b = - 1 \<or> bigu_cmp_loop n a b = 0 \<or> bigu_cmp_loop n a b = 1" for n
    by (induction n) auto
  then show ?thesis by (simp add: bigu_cmp_def)
qed

section \<open>The finalizer under an exchange of the accumulators\<close>

lemma finalize_unfold:
  "finalize_to_double Pos Neg =
     (if bigu_cmp Pos Neg = 0 then 0
      else if bigu_cmp Pos Neg > 0 then round_and_pack (bigu_sub Pos Neg bigu_clear) 1
      else round_and_pack (bigu_sub Neg Pos bigu_clear) (- 1))"
  by (simp add: finalize_to_double_def round_and_pack_def Let_def)

lemma pack_negate: "pack_double (- 1) e f = negate_u64 (pack_double 1 e f)"
proof -
  let ?E = "if e = INT_MIN then 0 else if e = INT_MAX then 2047 else nat (e + 1023) mod 2048"
  let ?F = "if e = INT_MAX then 0 else unat f mod 2 ^ 52"
  have E: "?E \<le> (2047::nat)"
    using mod_less_divisor [of 2048 "nat (e + 1023)"] by auto
  have F: "?F < (2::nat) ^ 52" by simp
  have lt: "2 ^ 52 * ?E + ?F < (2::nat) ^ 63"
    using E F by simp
  have p: "unat (pack_double 1 e f) = 2 ^ 52 * ?E + ?F"
    unfolding pack_double_unat by simp
  have n: "unat (pack_double (- 1) e f) = 2 ^ 63 + (2 ^ 52 * ?E + ?F)"
    unfolding pack_double_unat by simp
  have "unat (negate_u64 (pack_double 1 e f)) = unat (pack_double (- 1) e f)"
    unfolding unat_negate p n using lt by simp
  then show ?thesis by (simp add: word_unat_eq_iff)
qed

lemma negate_zero_ne: "negate_u64 0 \<noteq> 0"
  by (simp add: negate_u64_def)

lemma round_and_pack_negate:
  assumes "0 \<le> bigu_msb_index mag"
  shows "round_and_pack mag (- 1) = negate_u64 (round_and_pack mag 1)"
  using assms unfolding round_and_pack_def Let_def
  by (simp add: pack_negate)

lemma bigu_cmp_swap:
  assumes "length a = ACC_LIMBS" and "length b = ACC_LIMBS"
  shows "bigu_cmp b a = - bigu_cmp a b" and "bigu_cmp a b = 0 \<longleftrightarrow> a = b"
proof -
  show "bigu_cmp b a = - bigu_cmp a b"
    unfolding bigu_cmp_val [OF assms] bigu_cmp_val [OF assms(2,1)] by simp
  show "bigu_cmp a b = 0 \<longleftrightarrow> a = b"
    unfolding bigu_cmp_val [OF assms] using bigu_val_inj [of a b] assms by auto
qed

lemma inf_patterns:
  "negate_u64 0x7FF0000000000000 = 0xFFF0000000000000"
  "negate_u64 0xFFF0000000000000 = 0x7FF0000000000000"
  "\<not> is_nan_u64 0x7FF0000000000000" "\<not> is_nan_u64 0xFFF0000000000000"
  by (simp_all add: negate_u64_def is_nan_u64_def)

lemma finalize_swapped:
  assumes la: "length a = ACC_LIMBS" and lb: "length b = ACC_LIMBS"
  shows "finalize_to_double b a =
           (if a = b then 0 else negate_u64 (finalize_to_double a b))"
proof -
  note sw = bigu_cmp_swap [OF la lb]
  consider (eq) "bigu_cmp a b = 0" | (gt) "bigu_cmp a b = 1" | (lt) "bigu_cmp a b = - 1"
    using bigu_cmp_range [of a b] by blast
  then show ?thesis
  proof cases
    case eq
    with sw show ?thesis by (simp add: finalize_unfold)
  next
    case gt
    with sw have ne: "a \<noteq> b" by auto
    from gt sw ne sub_msb_nonneg [OF gt] show ?thesis
      by (simp add: finalize_unfold round_and_pack_negate)
  next
    case lt
    with sw have ne: "a \<noteq> b" and gt: "bigu_cmp b a = 1" by auto
    have "negate_u64 (negate_u64 w) = w" for w
      by (simp add: negate_u64_def xor.assoc)
    with lt gt ne sub_msb_nonneg [OF gt] show ?thesis
      by (simp add: finalize_unfold round_and_pack_negate)
  qed
qed

lemma finish_swapped:
  assumes "length (pos s) = ACC_LIMBS" and "length (neg s) = ACC_LIMBS"
    and "pos t = neg s" and "neg t = pos s" and "overflow t = overflow s"
    and "saw_nan t = saw_nan s" and "saw_invalid_zero_inf t = saw_invalid_zero_inf s"
    and "saw_pos_inf t = saw_neg_inf s" and "saw_neg_inf t = saw_pos_inf s"
  shows "ddot_finish t =
           (if is_nan_u64 (ddot_finish s) then ddot_finish s
            else if ddot_finish s = 0 \<and> pos s = neg s then 0
            else negate_u64 (ddot_finish s))"
proof -
  note sw = bigu_cmp_swap [OF assms(1,2)]
  note fs = finalize_swapped [OF assms(1,2)]
  have nn: "\<not> is_nan_u64 (finalize_to_double (pos s) (neg s))" by (rule finalize_not_nan)
  have z: "pos s = neg s \<Longrightarrow> finalize_to_double (pos s) (neg s) = 0"
    by (simp add: finalize_unfold bigu_cmp_refl)
  consider (eq) "bigu_cmp (pos s) (neg s) = 0" | (gt) "bigu_cmp (pos s) (neg s) = 1"
    | (lt) "bigu_cmp (pos s) (neg s) = - 1"
    using bigu_cmp_range [of "pos s" "neg s"] by blast
  then show ?thesis
  proof cases
    case eq
    with sw have e: "pos s = neg s" by simp
    show ?thesis
      unfolding ddot_finish_def assms(3-9) Let_def
      using e z nn
      by (auto simp: pack_pos_inf pack_neg_inf inf_patterns canonical_is_nan bigu_cmp_refl zero_not_nan)
  next
    case gt
    with sw have e: "pos s \<noteq> neg s" "bigu_cmp (neg s) (pos s) = - 1" by auto
    show ?thesis
      unfolding ddot_finish_def assms(3-9) Let_def
      using e gt nn fs
      by (auto simp: pack_pos_inf pack_neg_inf inf_patterns canonical_is_nan)
  next
    case lt
    with sw have e: "pos s \<noteq> neg s" "bigu_cmp (neg s) (pos s) = 1" by auto
    show ?thesis
      unfolding ddot_finish_def assms(3-9) Let_def
      using e lt nn fs
      by (auto simp: pack_pos_inf pack_neg_inf inf_patterns canonical_is_nan)
  qed
qed

lemma sign_prod_negate:
  "0 < sign_of_u64 (negate_u64 a) * sign_of_u64 b \<longleftrightarrow> \<not> 0 < sign_of_u64 a * sign_of_u64 b"
  "0 < sign_of_u64 a * sign_of_u64 (negate_u64 b) \<longleftrightarrow> \<not> 0 < sign_of_u64 a * sign_of_u64 b"
  using sign_of_u64_cases [of a] sign_of_u64_cases [of b] by auto

lemma loop_negated:
  fixes x y x' y' :: "u64 list"
  assumes "\<And>k. k < n \<Longrightarrow> (x' ! k = negate_u64 (x ! k) \<and> y' ! k = y ! k)
                          \<or> (x' ! k = x ! k \<and> y' ! k = negate_u64 (y ! k))"
  defines "s \<equiv> ddot_loop x y n 0 ddot_init" and "t \<equiv> ddot_loop x' y' n 0 ddot_init"
  shows "pos t = neg s \<and> neg t = pos s \<and> overflow t = overflow s \<and> saw_nan t = saw_nan s
         \<and> saw_invalid_zero_inf t = saw_invalid_zero_inf s
         \<and> saw_pos_inf t = saw_neg_inf s \<and> saw_neg_inf t = saw_pos_inf s"
proof -
  have u: "pos_units (x' ! k) (y' ! k) = neg_units (x ! k) (y ! k)
           \<and> neg_units (x' ! k) (y' ! k) = pos_units (x ! k) (y ! k)" if "k < n" for k
    using assms(1) [OF that] by (auto simp: negate_units)
  have sp: "(\<Sum>k<n. pos_units (x' ! k) (y' ! k)) = (\<Sum>k<n. neg_units (x ! k) (y ! k))"
    by (rule sum.cong) (use u in auto)
  have sn: "(\<Sum>k<n. neg_units (x' ! k) (y' ! k)) = (\<Sum>k<n. pos_units (x ! k) (y ! k))"
    by (rule sum.cong) (use u in auto)
  note A = loop_abstract [of x y n, folded s_def] and B = loop_abstract [of x' y' n, folded t_def]
  have "bigu_val (pos t) = bigu_val (neg s)" using A B sp by simp
  moreover have "length (pos t) = length (neg s)" using A B by simp
  ultimately have p: "pos t = neg s" by (rule bigu_val_inj [rotated])
  have "bigu_val (neg t) = bigu_val (pos s)" using A B sn by simp
  moreover have "length (neg t) = length (pos s)" using A B by simp
  ultimately have q: "neg t = pos s" by (rule bigu_val_inj [rotated])
  have o: "overflow t = overflow s" using A B sp sn by auto
  have c: "is_nan_u64 (x' ! k) = is_nan_u64 (x ! k) \<and> is_nan_u64 (y' ! k) = is_nan_u64 (y ! k)
           \<and> zero_times_inf (x' ! k) (y' ! k) = zero_times_inf (x ! k) (y ! k)
           \<and> inf_product (x' ! k) (y' ! k) = inf_product (x ! k) (y ! k)
           \<and> (0 < sign_of_u64 (x' ! k) * sign_of_u64 (y' ! k) \<longleftrightarrow> \<not> 0 < sign_of_u64 (x ! k) * sign_of_u64 (y ! k))"
    if "k < n" for k
    using assms(1) [OF that] sign_of_u64_cases [of "x ! k"] sign_of_u64_cases [of "y ! k"]
    by auto
  have f1: "saw_nan t = saw_nan s"
    unfolding s_def t_def loop_saw_nan using c by auto
  have f2: "saw_invalid_zero_inf t = saw_invalid_zero_inf s"
    unfolding s_def t_def loop_saw_invalid using c by auto
  have f3: "saw_pos_inf t = saw_neg_inf s"
    unfolding s_def t_def loop_saw_pos_inf loop_saw_neg_inf using c by auto
  have f4: "saw_neg_inf t = saw_pos_inf s"
    unfolding s_def t_def loop_saw_pos_inf loop_saw_neg_inf using c by auto
  from p q o f1 f2 f3 f4 show ?thesis by simp
qed

section \<open>The claims\<close>

text \<open>
  C3. If some \<open>x[i]\<close> or \<open>y[i]\<close> with \<open>i < n\<close> is a NaN, or some pair has an infinite
  operand and a zero operand, \<open>ddot_repro\<close> returns the pattern \<open>0x7FF8000000000001\<close>,
  whatever the other pairs are.
\<close>

theorem nan_precedence:
  assumes "n \<le> length x" and "n \<le> length y" and "i < n"
    and "is_nan_u64 (x ! i) \<or> is_nan_u64 (y ! i) \<or> zero_times_inf (x ! i) (y ! i)"
  shows "ddot_repro x y n = 0x7FF8000000000001"
proof -
  let ?st = "ddot_loop x y n 0 ddot_init"
  have "saw_nan ?st \<or> saw_invalid_zero_inf ?st"
    unfolding loop_saw_nan loop_saw_invalid using assms(3,4) by blast
  then show ?thesis
    by (auto simp: ddot_repro_def ddot_finish_def)
qed

theorem nan_precedence_witness:
  "ddot_repro [0x7FF8000000000000, 0x3FF0000000000000] [0x4000000000000000, 0x4008000000000000] 2
     = 0x7FF8000000000001"
  using nan_precedence [of 2 "[0x7FF8000000000000, 0x3FF0000000000000]"
      "[0x4000000000000000, 0x4008000000000000]" 0]
  by (simp add: is_nan_u64_def)

text \<open>
  C10. \<open>finalize_to_double\<close> never returns a NaN pattern; so \<open>ddot_repro\<close> returns a NaN
  exactly when \<open>saw_nan\<close>, \<open>saw_invalid_zero_inf\<close>, or both \<open>saw_pos_inf\<close> and
  \<open>saw_neg_inf\<close> are latched after the loop, and the NaN it returns is
  \<open>0x7FF8000000000001\<close>.
\<close>

theorem nan_only_from_flags:
  "\<not> is_nan_u64 (finalize_to_double Pos Neg) \<and>
   (is_nan_u64 (ddot_repro x y n) \<longleftrightarrow>
      (let st = ddot_loop x y n 0 ddot_init
       in saw_nan st \<or> saw_invalid_zero_inf st \<or> (saw_pos_inf st \<and> saw_neg_inf st))) \<and>
   (is_nan_u64 (ddot_repro x y n) \<longrightarrow> ddot_repro x y n = 0x7FF8000000000001)"
  unfolding ddot_repro_def ddot_finish_def Let_def
  by (simp add: finalize_not_nan pack_not_nan zero_not_nan canonical_is_nan)

theorem nan_only_from_flags_witness:
  "is_nan_u64 (ddot_repro [0x7FF0000000000000] [0] 1) \<and>
   ddot_repro [0x7FF0000000000000] [0] 1 = 0x7FF8000000000001"
proof -
  have "is_nan_u64 (ddot_repro [0x7FF0000000000000] [0] 1)"
    by code_simp
  with nan_only_from_flags [of bigu_clear bigu_clear "[0x7FF0000000000000]" "[0]" 1]
  show ?thesis by blast
qed

text \<open>
  C4. With no NaN operand and no pair of a zero and an infinity among the first \<open>n\<close>
  pairs: if some pair with an infinite operand has a positive sign product and some such
  pair a negative one, the result is the canonical NaN; if such pairs exist and are all
  positive, it is \<open>+\<infinity>\<close> (\<open>0x7FF0000000000000\<close>); if all negative, \<open>-\<infinity>\<close>
  (\<open>0xFFF0000000000000\<close>). The finite pairs play no role.
\<close>

theorem inf_combination:
  assumes "n \<le> length x" and "n \<le> length y"
    and "\<forall>k<n. \<not> is_nan_u64 (x ! k) \<and> \<not> is_nan_u64 (y ! k) \<and> \<not> zero_times_inf (x ! k) (y ! k)"
  defines "P \<equiv> \<exists>k<n. (is_inf_u64 (x ! k) \<or> is_inf_u64 (y ! k)) \<and> sign_of_u64 (x ! k) * sign_of_u64 (y ! k) = 1"
    and "N \<equiv> \<exists>k<n. (is_inf_u64 (x ! k) \<or> is_inf_u64 (y ! k)) \<and> sign_of_u64 (x ! k) * sign_of_u64 (y ! k) = - 1"
  shows "(P \<and> N \<longrightarrow> ddot_repro x y n = 0x7FF8000000000001) \<and>
         (P \<and> \<not> N \<longrightarrow> ddot_repro x y n = 0x7FF0000000000000) \<and>
         (\<not> P \<and> N \<longrightarrow> ddot_repro x y n = 0xFFF0000000000000)"
proof -
  let ?st = "ddot_loop x y n 0 ddot_init"
  have 1: "\<not> saw_nan ?st" "\<not> saw_invalid_zero_inf ?st"
    unfolding loop_saw_nan loop_saw_invalid using assms(3) by auto
  have 2: "saw_pos_inf ?st \<longleftrightarrow> P"
    unfolding loop_saw_pos_inf P_def inf_product_def sign_prod_pos using assms(3) by auto
  have 3: "saw_neg_inf ?st \<longleftrightarrow> N"
    unfolding loop_saw_neg_inf N_def inf_product_def sign_prod_neg using assms(3) by auto
  show ?thesis
    unfolding ddot_repro_def ddot_finish_def using 1 2 3
    by (simp add: pack_pos_inf pack_neg_inf)
qed

theorem inf_combination_witness:
  "ddot_repro [0x7FF0000000000000, 0xFFF0000000000000] [0x4000000000000000, 0x4000000000000000] 2
     = 0x7FF8000000000001"
proof -
  let ?x = "[0x7FF0000000000000, 0xFFF0000000000000] :: u64 list"
  let ?y = "[0x4000000000000000, 0x4000000000000000] :: u64 list"
  have h: "\<forall>k<2. \<not> is_nan_u64 (?x ! k) \<and> \<not> is_nan_u64 (?y ! k) \<and> \<not> zero_times_inf (?x ! k) (?y ! k)"
    by code_simp
  have p: "\<exists>k<2. (is_inf_u64 (?x ! k) \<or> is_inf_u64 (?y ! k)) \<and> sign_of_u64 (?x ! k) * sign_of_u64 (?y ! k) = 1"
    by code_simp
  have n: "\<exists>k<2. (is_inf_u64 (?x ! k) \<or> is_inf_u64 (?y ! k)) \<and> sign_of_u64 (?x ! k) * sign_of_u64 (?y ! k) = - 1"
    by code_simp
  from inf_combination [of 2 ?x ?y, OF _ _ h] p n show ?thesis
    by simp
qed

text \<open>
  C5. \<open>ddot_repro x y 0\<close> is \<open>+0.0\<close> for all \<open>x\<close> and \<open>y\<close>; and whenever no flag is
  latched after the loop and the two accumulators are equal, the result is \<open>+0.0\<close>
  (the all-zero pattern), never \<open>-0.0\<close>.
\<close>

theorem zero_result:
  "ddot_repro x y 0 = 0 \<and>
   (let st = ddot_loop x y n 0 ddot_init
    in \<not> saw_nan st \<and> \<not> saw_invalid_zero_inf st \<and> \<not> saw_pos_inf st \<and> \<not> saw_neg_inf st
       \<and> \<not> overflow st \<and> pos st = neg st
       \<longrightarrow> ddot_repro x y n = 0)"
  by (simp add: ddot_repro_def ddot_finish_def loop_zero finalize_to_double_def bigu_cmp_refl Let_def)

theorem zero_result_witness:
  "ddot_repro [0x3FF0000000000000, 0x3FF0000000000000] [0x3FF0000000000000, 0xBFF0000000000000] 2 = 0"
proof -
  have "let st = ddot_loop [0x3FF0000000000000, 0x3FF0000000000000]
                   [0x3FF0000000000000, 0xBFF0000000000000] 2 0 ddot_init
        in \<not> saw_nan st \<and> \<not> saw_invalid_zero_inf st \<and> \<not> saw_pos_inf st \<and> \<not> saw_neg_inf st
           \<and> \<not> overflow st \<and> pos st = neg st"
    by code_simp
  with zero_result [of "[0x3FF0000000000000, 0x3FF0000000000000]"
      "[0x3FF0000000000000, 0xBFF0000000000000]" 2]
  show ?thesis by (simp add: Let_def)
qed

text \<open>
  C7. For two finite, non-zero operands the decoded exponents add up to a value in
  \<open>[-2148, 1942]\<close>, so the test \<open>Eprod < ACC_EMIN\<close> of the loop body is false for them.
\<close>

theorem eprod_range:
  assumes "\<not> is_nan_u64 x" "\<not> is_inf_u64 x" "\<not> is_zero_u64 x"
    and "\<not> is_nan_u64 y" "\<not> is_inf_u64 y" "\<not> is_zero_u64 y"
  shows "\<exists>sx Sx E_x sy Sy E_y.
           decode_double_SE x = Some (sx, Sx, E_x) \<and> decode_double_SE y = Some (sy, Sy, E_y)
           \<and> Sx \<noteq> 0 \<and> Sy \<noteq> 0
           \<and> - 2148 \<le> E_x + E_y \<and> E_x + E_y \<le> 1942 \<and> \<not> E_x + E_y < ACC_EMIN"
proof -
  from decode_finite [OF assms(1,2)] assms(3) obtain Sx E_x
    where x: "decode_double_SE x = Some (sign_of_u64 x, Sx, E_x)" "Sx \<noteq> 0" by auto
  from decode_finite [OF assms(4,5)] assms(6) obtain Sy E_y
    where y: "decode_double_SE y = Some (sign_of_u64 y, Sy, E_y)" "Sy \<noteq> 0" by auto
  from decode_exponent_range [OF x] decode_exponent_range [OF y]
  have "- 2148 \<le> E_x + E_y \<and> E_x + E_y \<le> 1942" by linarith
  with x y show ?thesis by auto
qed

theorem eprod_range_witness:
  "\<exists>sx Sx E_x sy Sy E_y.
     decode_double_SE 1 = Some (sx, Sx, E_x) \<and> decode_double_SE 0x7FEFFFFFFFFFFFFF = Some (sy, Sy, E_y)
     \<and> Sx \<noteq> 0 \<and> Sy \<noteq> 0
     \<and> - 2148 \<le> E_x + E_y \<and> E_x + E_y \<le> 1942 \<and> \<not> E_x + E_y < ACC_EMIN"
  by (rule eprod_range) (simp_all add: is_nan_u64_def is_inf_u64_def is_zero_u64_def)

text \<open>
  C2. For every permutation \<open>p\<close> of the indices below \<open>n\<close>, \<open>ddot_repro\<close> on the permuted
  arrays returns the same 64-bit pattern as on the original ones. Nothing is assumed about
  the operands, so the statement covers inputs that latch an exceptional flag or the
  overflow flag.
\<close>

theorem order_independence:
  fixes x y :: "u64 list"
  assumes "bij_betw p {..<n} {..<n}" and "n \<le> length x" and "n \<le> length y"
  shows "ddot_repro (map (\<lambda>i. x ! p i) [0..<n]) (map (\<lambda>i. y ! p i) [0..<n]) n = ddot_repro x y n"
proof -
  let ?x = "map (\<lambda>i. x ! p i) [0..<n]" and ?y = "map (\<lambda>i. y ! p i) [0..<n]"
  have nth: "\<And>k. k < n \<Longrightarrow> ?x ! k = x ! p k \<and> ?y ! k = y ! p k" by simp
  have ex: "(\<exists>k<n. Q (?x ! k) (?y ! k)) \<longleftrightarrow> (\<exists>k<n. Q (x ! k) (y ! k))" for Q
  proof -
    have "(\<exists>k<n. Q (?x ! k) (?y ! k)) \<longleftrightarrow> (\<exists>k<n. Q (x ! p k) (y ! p k))"
      using nth by auto
    also have "\<dots> \<longleftrightarrow> (\<exists>k<n. Q (x ! k) (y ! k))"
      by (rule perm_ex [OF assms(1), of "\<lambda>k. Q (x ! k) (y ! k)"])
    finally show ?thesis .
  qed
  have su: "(\<Sum>k<n. f (?x ! k) (?y ! k)) = (\<Sum>k<n. (f (x ! k) (y ! k) :: nat))" for f
  proof -
    have "(\<Sum>k<n. f (?x ! k) (?y ! k)) = (\<Sum>k<n. f (x ! p k) (y ! p k))"
      by (rule sum.cong) (use nth in auto)
    also have "\<dots> = (\<Sum>k<n. f (x ! k) (y ! k))"
      by (rule perm_sum [OF assms(1), of "\<lambda>k. f (x ! k) (y ! k)"])
    finally show ?thesis .
  qed
  show ?thesis
  proof (rule loop_cong)
    show "(\<Sum>k<n. pos_units (?x ! k) (?y ! k)) = (\<Sum>k<n. pos_units (x ! k) (y ! k))"
      by (rule su)
    show "(\<Sum>k<n. neg_units (?x ! k) (?y ! k)) = (\<Sum>k<n. neg_units (x ! k) (y ! k))"
      by (rule su)
    show "saw_nan (ddot_loop ?x ?y n 0 ddot_init) = saw_nan (ddot_loop x y n 0 ddot_init)"
      unfolding loop_saw_nan by (rule ex [of "\<lambda>a b. is_nan_u64 a \<or> is_nan_u64 b"])
    show "saw_invalid_zero_inf (ddot_loop ?x ?y n 0 ddot_init) = saw_invalid_zero_inf (ddot_loop x y n 0 ddot_init)"
      unfolding loop_saw_invalid
      by (rule ex [of "\<lambda>a b. \<not> is_nan_u64 a \<and> \<not> is_nan_u64 b \<and> zero_times_inf a b"])
    show "saw_pos_inf (ddot_loop ?x ?y n 0 ddot_init) = saw_pos_inf (ddot_loop x y n 0 ddot_init)"
      unfolding loop_saw_pos_inf
      by (rule ex [of "\<lambda>a b. \<not> is_nan_u64 a \<and> \<not> is_nan_u64 b \<and> inf_product a b \<and> 0 < sign_of_u64 a * sign_of_u64 b"])
    show "saw_neg_inf (ddot_loop ?x ?y n 0 ddot_init) = saw_neg_inf (ddot_loop x y n 0 ddot_init)"
      unfolding loop_saw_neg_inf
      by (rule ex [of "\<lambda>a b. \<not> is_nan_u64 a \<and> \<not> is_nan_u64 b \<and> inf_product a b \<and> \<not> 0 < sign_of_u64 a * sign_of_u64 b"])
  qed
qed

theorem order_independence_witness:
  "ddot_repro [0x41EFFFFFFFE00000, 0x35B0000000000000, 0x3FF0000000000000]
              [0xBBB0000000100000, 0xBFF0000000000000, 0x3FF0000000000000] 3
   = ddot_repro [0x3FF0000000000000, 0x41EFFFFFFFE00000, 0x35B0000000000000]
                [0x3FF0000000000000, 0xBBB0000000100000, 0xBFF0000000000000] 3"
proof -
  let ?x = "[0x3FF0000000000000, 0x41EFFFFFFFE00000, 0x35B0000000000000] :: u64 list"
  let ?y = "[0x3FF0000000000000, 0xBBB0000000100000, 0xBFF0000000000000] :: u64 list"
  let ?p = "\<lambda>i::nat. (i + 1) mod 3"
  have b: "bij_betw ?p {..<3} {..<3}"
  proof -
    have s: "{..<3::nat} = {0, 1, 2}" by auto
    show ?thesis unfolding s by (auto simp add: bij_betw_def)
  qed
  have mx: "map (\<lambda>i. ?x ! ?p i) [0..<3] = [0x41EFFFFFFFE00000, 0x35B0000000000000, 0x3FF0000000000000]"
    by code_simp
  have my: "map (\<lambda>i. ?y ! ?p i) [0..<3] = [0xBBB0000000100000, 0xBFF0000000000000, 0x3FF0000000000000]"
    by code_simp
  from order_independence [OF b, of ?x ?y] show ?thesis
    unfolding mx my by simp
qed


text \<open>
  C8. For an accumulator of \<open>ACC_LIMBS\<close> limbs, a 128-bit value and a shift of at most
  4090: when the overflow flag is clear after \<open>bigu_add_shifted_u128\<close>, the accumulator
  holds its former value plus \<open>val \<cdot> 2 ^ shift\<close> exactly; and when that sum does not fit the
  \<open>64 \<cdot> ACC_LIMBS\<close> bits of the limb array, the flag is set. The flag is only ever set,
  never cleared.
\<close>

theorem add_shifted_exact:
  assumes "length a = ACC_LIMBS" and "shift \<le> 4090"
    and "bigu_add_shifted_u128 a val shift ov = (a', ov')"
  shows "(ov' \<longleftrightarrow> ov \<or> acc_modulus \<le> bigu_val a + unat val * 2 ^ shift) \<and>
         (\<not> ov' \<longrightarrow> bigu_val a' = bigu_val a + unat val * 2 ^ shift) \<and>
         (acc_modulus \<le> bigu_val a + unat val * 2 ^ shift \<longrightarrow> ov')"
proof -
  from assms(2) have "shift \<le> 4095" by simp
  from bigu_add_correct [OF assms(1) this assms(3)]
  have v: "bigu_val a' = (bigu_val a + unat val * 2 ^ shift) mod acc_modulus"
    and o: "ov' \<longleftrightarrow> ov \<or> acc_modulus \<le> bigu_val a + unat val * 2 ^ shift"
    by simp_all
  show ?thesis
    using v o by auto
qed


theorem add_shifted_exact_witness:
  "bigu_val (fst (bigu_add_shifted_u128 bigu_clear 3 70 False)) = bigu_val bigu_clear + unat (3 :: u128) * 2 ^ 70
   \<and> snd (bigu_add_shifted_u128 (replicate ACC_LIMBS (- 1)) 1 0 False)"
proof -
  have r1: "bigu_add_shifted_u128 bigu_clear 3 70 False = (bigu_clear[1 := 192], False)"
    by code_simp
  have r2: "bigu_add_shifted_u128 (replicate ACC_LIMBS (- 1)) 1 0 False = (bigu_clear, True)"
    by code_simp
  have v: "bigu_val (replicate ACC_LIMBS (- 1)) + 1 = acc_modulus"
    unfolding acc_modulus_def by (rule bigu_val_all_ones)
  have "acc_modulus \<le> bigu_val (replicate ACC_LIMBS (- 1)) + unat (1 :: u128) * 2 ^ 0"
    using v by simp
  with add_shifted_exact [OF _ _ r1] add_shifted_exact [OF _ _ r2]
  show ?thesis
    unfolding r1 r2 by simp
qed

text \<open>
  C9. When all operands of the first \<open>n\<close> pairs are finite (no NaN, no pair of a zero and
  an infinity, no infinite product) and the overflow flag is latched after the loop, the
  result is decided by comparing the two accumulators as they stand: \<open>+0.0\<close> when they are
  equal, \<open>+\<infinity>\<close> when \<open>Pos\<close> is larger, \<open>-\<infinity>\<close> when \<open>Neg\<close> is larger. The result does not
  go through \<open>finalize_to_double\<close>. The witness is an input that does overflow:
  \<open>2 ^ 28 + 1\<close> copies of the largest finite double, multiplied by themselves.
\<close>

theorem overflow_precedence:
  fixes x y :: "u64 list"
  assumes "n \<le> length x" and "n \<le> length y"
    and "\<forall>k<n. finite_u64 (x ! k) \<and> finite_u64 (y ! k)"
    and "overflow (ddot_loop x y n 0 ddot_init)"
  shows "let st = ddot_loop x y n 0 ddot_init; P = bigu_val (pos st); N = bigu_val (neg st)
         in ddot_repro x y n =
              (if P = N then 0 else if N < P then 0x7FF0000000000000 else 0xFFF0000000000000)"
proof -
  let ?st = "ddot_loop x y n 0 ddot_init"
  have fin: "\<And>k. k < n \<Longrightarrow> \<not> is_nan_u64 (x ! k) \<and> \<not> is_nan_u64 (y ! k)
               \<and> \<not> is_inf_u64 (x ! k) \<and> \<not> is_inf_u64 (y ! k)"
    using assms(3) by (simp add: finite_u64_def)
  have 1: "\<not> saw_nan ?st"
    unfolding loop_saw_nan using fin by blast
  have 2: "\<not> saw_invalid_zero_inf ?st"
    unfolding loop_saw_invalid zero_times_inf_def using fin by blast
  have 3: "\<not> saw_pos_inf ?st"
    unfolding loop_saw_pos_inf inf_product_def using fin by blast
  have 4: "\<not> saw_neg_inf ?st"
    unfolding loop_saw_neg_inf inf_product_def using fin by blast
  from loop_abstract [of x y n]
  have l: "length (pos ?st) = ACC_LIMBS" "length (neg ?st) = ACC_LIMBS" by simp_all
  show ?thesis
    unfolding ddot_repro_def ddot_finish_def Let_def bigu_cmp_val [OF l]
    using 1 2 3 4 assms(4) by (simp add: pack_pos_inf pack_neg_inf)
qed

theorem overflow_precedence_witness:
  "ddot_repro (replicate 268435457 0x7FEFFFFFFFFFFFFF) (replicate 268435457 0x7FEFFFFFFFFFFFFF)
     268435457 = 0x7FF0000000000000"
proof -
  let ?x = "replicate 268435457 (0x7FEFFFFFFFFFFFFF :: u64)"
  let ?st = "ddot_loop ?x ?x 268435457 0 ddot_init"
  have n: "(268435457::nat) \<le> 268435457" "(268435457::nat) < 2 ^ 64" by simp_all
  note O = overflowing_input [OF n]
  have fin: "\<forall>k<268435457. finite_u64 (?x ! k) \<and> finite_u64 (?x ! k)"
    by (simp add: max_double_fields)
  have "268435457 * 81129638414606663681390495662081 mod 21778071482940061661655974875633165533184
          = (81129633578903385222874065272833 :: nat)"
    by simp
  then have P: "bigu_val (pos ?st) = 81129633578903385222874065272833 * 2 ^ 4090"
    using O(3) by simp
  have "0 < bigu_val (pos ?st)" unfolding P by simp
  with overflow_precedence [of 268435457 ?x ?x, OF _ _ fin O(1)] O(2)
  show ?thesis by (simp add: Let_def)
qed

text \<open>
  C6, as stated, fails: for \<open>x = [2 ^ -1074]\<close> and \<open>y = [2 ^ -1074]\<close> the result is \<open>+0.0\<close>
  (the positive product underflows), and negating \<open>x\<close> gives \<open>-0.0\<close>, not \<open>+0.0\<close>.
\<close>

theorem sign_symmetry_counterexample:
  "ddot_repro [1] [1] 1 = 0 \<and> ddot_repro (map negate_u64 [1]) [1] 1 = 0x8000000000000000"
  by code_simp


text \<open>
  C6, amended. Negating every \<open>x[i]\<close> and negating every \<open>y[i]\<close> give the same result. It
  is the result \<open>r\<close> of the original input itself when \<open>r\<close> is a NaN; \<open>+0.0\<close> when \<open>r\<close> is
  \<open>+0.0\<close> and the two accumulators are equal after the loop (exact cancellation, or
  nothing accumulated); and \<open>r\<close> with bit 63 flipped otherwise, so that a \<open>+0.0\<close> that comes
  from the underflow of a positive sum becomes \<open>-0.0\<close>.
\<close>

theorem sign_symmetry_amended:
  fixes x y :: "u64 list"
  assumes "n \<le> length x" and "n \<le> length y"
  shows "ddot_repro x (map negate_u64 y) n = ddot_repro (map negate_u64 x) y n \<and>
         ddot_repro (map negate_u64 x) y n =
           (let r = ddot_repro x y n; st = ddot_loop x y n 0 ddot_init
            in if is_nan_u64 r then r
               else if r = 0 \<and> pos st = neg st then 0
               else negate_u64 r)"
proof -
  let ?s = "ddot_loop x y n 0 ddot_init"
  let ?t = "ddot_loop (map negate_u64 x) y n 0 ddot_init"
  let ?u = "ddot_loop x (map negate_u64 y) n 0 ddot_init"
  from loop_abstract [of x y n]
  have l: "length (pos ?s) = ACC_LIMBS" "length (neg ?s) = ACC_LIMBS" by simp_all
  have T: "pos ?t = neg ?s \<and> neg ?t = pos ?s \<and> overflow ?t = overflow ?s \<and> saw_nan ?t = saw_nan ?s
         \<and> saw_invalid_zero_inf ?t = saw_invalid_zero_inf ?s
         \<and> saw_pos_inf ?t = saw_neg_inf ?s \<and> saw_neg_inf ?t = saw_pos_inf ?s"
    by (rule loop_negated) (use assms in auto)
  have U: "pos ?u = neg ?s \<and> neg ?u = pos ?s \<and> overflow ?u = overflow ?s \<and> saw_nan ?u = saw_nan ?s
         \<and> saw_invalid_zero_inf ?u = saw_invalid_zero_inf ?s
         \<and> saw_pos_inf ?u = saw_neg_inf ?s \<and> saw_neg_inf ?u = saw_pos_inf ?s"
    by (rule loop_negated) (use assms in auto)
  have "ddot_finish ?u = ddot_finish ?t"
    by (rule ddot_finish_cong) (use T U in simp_all)
  moreover have "ddot_finish ?t =
           (if is_nan_u64 (ddot_finish ?s) then ddot_finish ?s
            else if ddot_finish ?s = 0 \<and> pos ?s = neg ?s then 0
            else negate_u64 (ddot_finish ?s))"
    by (rule finish_swapped [OF l]) (use T in simp_all)
  ultimately show ?thesis
    unfolding ddot_repro_def Let_def by simp
qed


theorem sign_symmetry_amended_witness:
  "ddot_repro [0x3FF0000000000000, 0x4000000000000000] (map negate_u64 [0x4008000000000000, 0x4010000000000000]) 2
     = ddot_repro (map negate_u64 [0x3FF0000000000000, 0x4000000000000000]) [0x4008000000000000, 0x4010000000000000] 2
   \<and> ddot_repro (map negate_u64 [0x3FF0000000000000, 0x4000000000000000]) [0x4008000000000000, 0x4010000000000000] 2
     = negate_u64 (ddot_repro [0x3FF0000000000000, 0x4000000000000000] [0x4008000000000000, 0x4010000000000000] 2)"
proof -
  let ?x = "[0x3FF0000000000000, 0x4000000000000000] :: u64 list"
  let ?y = "[0x4008000000000000, 0x4010000000000000] :: u64 list"
  have r: "ddot_repro ?x ?y 2 = 0x4026000000000000" by code_simp
  have n: "\<not> is_nan_u64 0x4026000000000000" by (simp add: is_nan_u64_def)
  from sign_symmetry_amended [of 2 ?x ?y] show ?thesis
    unfolding Let_def r using n by simp
qed

text \<open>
  C1, at \<open>x = [1, 2 ^ 32 - 1, 2 ^ -164]\<close> and \<open>y = [1, -(2 ^ 32 + 1) \<cdot> 2 ^ -100, -1]\<close>: the
  exact sum is \<open>1 - 2 ^ -36 + 2 ^ -100 - 2 ^ -164\<close>, whose nearest double is \<open>1 - 2 ^ -36\<close>
  (\<open>0x3FEFFFFFFFFE0000\<close>), and \<open>ddot_repro\<close> returns \<open>1.0\<close>. In \<open>bigu_sub\<close> the limb of
  \<open>Neg\<close> that is all ones wraps to zero when the borrow is added to it in 64 bits, and the
  borrow is lost.
\<close>

theorem borrow_lost_evaluation:
  "ddot_repro [0x3FF0000000000000, 0x41EFFFFFFFE00000, 0x35B0000000000000]
              [0x3FF0000000000000, 0xBBB0000000100000, 0xBFF0000000000000] 3
     = 0x3FF0000000000000"
  by code_simp

end
